theory Spec2Isabelle
  imports Main "HOL-Library.Sublist"
begin

section \<open>The scanner of parser.go\<close>

text \<open>
  Go strings and byte slices are sequences of bytes: they are modelled as \<open>string\<close>
  (a list of 8-bit \<open>char\<close>s). Go's \<open>int\<close> fields that count lines, columns and
  offsets are modelled as \<open>int\<close>: they are bounded by the length of the buffer, far
  below the 64-bit range. The cursor \<open>pos\<close> is never negative and is a \<open>nat\<close>.
\<close>

subsection \<open>Byte classes\<close>

definition isQuote1 :: "char \<Rightarrow> bool" where
  "isQuote1 b = (b = CHR 0x27)"

definition isQuote2 :: "char \<Rightarrow> bool" where
  "isQuote2 b = (b = CHR 0x22)"

definition isSpace :: "char \<Rightarrow> bool" where
  "isSpace b = (b = CHR '' '' \<or> b = CHR 0x09)"

definition isLeftBrace :: "char \<Rightarrow> bool" where
  "isLeftBrace b = (b = CHR ''{'')"

definition isNewLine :: "char \<Rightarrow> bool" where
  "isNewLine b = (b = CHR 0x0A)"

definition isBackQuote :: "char \<Rightarrow> bool" where
  "isBackQuote b = (b = CHR 0x60)"

definition isBareword :: "char \<Rightarrow> bool" where
  "isBareword b =
     (if (of_char b :: nat) < 32 then False
      else if isSpace b then False
      else if isQuote1 b then False
      else if isQuote2 b then False
      else if isLeftBrace b then False
      else if isBackQuote b then False
      else True)"

subsection \<open>Positions, errors and the scanner state\<close>

record Position =
  Line :: int
  Column :: int
  Offset :: int

record ScanError =
  Pos :: Position
  Msg :: string

text \<open>What \<open>Next\<close> returns as its \<open>error\<close>: \<open>io.EOF\<close> or a \<open>*ScanError\<close>;
  Go's \<open>nil\<close> is \<open>None\<close> of \<open>err option\<close>.\<close>

datatype err = EOF | ScanErr ScanError

record Scanner =
  s :: string
  pos :: nat
  line :: int
  column :: int
  baseOffset :: int

definition NewScanner :: "string \<Rightarrow> Scanner" where
  "NewScanner inp = \<lparr>s = inp, pos = 0, line = 1, column = 1, baseOffset = 0\<rparr>"

definition currentPos :: "Scanner \<Rightarrow> Position" where
  "currentPos sc = \<lparr>Line = line sc, Column = column sc, Offset = baseOffset sc + int (pos sc)\<rparr>"

definition NewFromScanner :: "Scanner \<Rightarrow> string \<Rightarrow> Scanner" where
  "NewFromScanner parent inp =
     (let parentPos = currentPos parent
      in \<lparr>s = inp, pos = 0, line = Line parentPos, column = 1, baseOffset = Offset parentPos\<rparr>)"

definition advance :: "Scanner \<Rightarrow> Scanner" where
  "advance sc =
     (if pos sc < length (s sc) \<and> s sc ! pos sc = CHR 0x0A
      then sc\<lparr>line := line sc + 1, column := 1, pos := pos sc + 1\<rparr>
      else sc\<lparr>column := column sc + 1, pos := pos sc + 1\<rparr>)"

definition errorAt :: "Scanner \<Rightarrow> string \<Rightarrow> ScanError" where
  "errorAt sc msg = \<lparr>Pos = currentPos sc, Msg = msg\<rparr>"

text \<open>The slice \<open>xs[i:j]\<close>. Go panics unless \<open>i \<le> j \<le> len(xs)\<close>; every slice the
  scanner takes is between an earlier and the current cursor, both within the buffer.\<close>

definition slice :: "string \<Rightarrow> nat \<Rightarrow> nat \<Rightarrow> string" where
  "slice xs i j = take (j - i) (drop i xs)"

subsection \<open>Escape decoders\<close>

text \<open>A sub-parser returns the scanner it leaves behind, its string and its error
  (\<open>None\<close> for \<open>nil\<close>): Go returns the string also when the error is set.\<close>

type_synonym parsed = "Scanner \<times> string \<times> ScanError option"

text \<open>\<open>string(b)\<close> for a byte \<open>b\<close>: Go converts an integer to the UTF-8 encoding of
  the code point of that number, so a byte below 0x80 gives itself and a byte from 0x80
  on gives two bytes (0xC3 gives 0xC3 0x83).\<close>

definition string_of_byte :: "char \<Rightarrow> string" where
  "string_of_byte b =
     (if (of_char b :: nat) < 128 then [b]
      else [char_of (192 + (of_char b :: nat) div 64), char_of (128 + (of_char b :: nat) mod 64)])"

text \<open>The \<open>switch\<close> of \<open>parseBackslashEscape\<close> on the byte after the backslash.\<close>

definition backslashEscape_value :: "char \<Rightarrow> string" where
  "backslashEscape_value b =
     (if b = CHR ''n'' then [CHR 0x0A]
      else if b = CHR ''r'' then [CHR 0x0D]
      else if b = CHR ''t'' then [CHR 0x09]
      else if b = CHR 0x5C then [CHR 0x5C]
      else if b = CHR 0x22 then [CHR 0x22]
      else if b = CHR 0x27 then [CHR 0x27]
      else if b = CHR 0x0A then []
      else string_of_byte b)"

definition parseBackslashEscape :: "Scanner \<Rightarrow> parsed" where
  "parseBackslashEscape sc =
     (if pos sc \<ge> length (s sc) then (sc, [], Some (errorAt sc ''got EOF after backslash''))
      else
        let sc1 = advance sc in
        if pos sc1 \<ge> length (s sc1) then (sc1, [], Some (errorAt sc1 ''got EOF after backslash''))
        else
          let b = s sc1 ! pos sc1; sc2 = advance sc1 in
          (sc2, backslashEscape_value b, None))"

text \<open>The \<open>switch\<close> of \<open>parseBraceEscape\<close>.\<close>

definition braceEscape_value :: "char \<Rightarrow> string" where
  "braceEscape_value b =
     (if b = CHR ''{'' then ''{''
      else if b = CHR ''}'' then ''}''
      else if b = CHR 0x5C then [CHR 0x5C]
      else [CHR 0x5C] @ string_of_byte b)"

definition parseBraceEscape :: "Scanner \<Rightarrow> parsed" where
  "parseBraceEscape sc =
     (if pos sc \<ge> length (s sc) then (sc, [], Some (errorAt sc ''got EOF after backslash''))
      else
        let sc1 = advance sc in
        if pos sc1 \<ge> length (s sc1) then (sc1, [], Some (errorAt sc1 ''got EOF after backslash''))
        else
          let b = s sc1 ! pos sc1; sc2 = advance sc1 in
          (sc2, braceEscape_value b, None))"

subsection \<open>Token sub-parsers\<close>

text \<open>Each \<open>for s.pos < len(s.s)\<close> loop is a recursive function on the scanner and the
  loop's local variables; the cursor moves forward on every iteration, which is the
  termination measure.\<close>

function parseBackQuote_loop :: "Scanner \<Rightarrow> nat \<Rightarrow> parsed" where
  "parseBackQuote_loop sc i =
     (if pos sc < length (s sc) then
        (if s sc ! pos sc = CHR 0x60 then (advance sc, slice (s sc) i (pos sc), None)
         else parseBackQuote_loop (advance sc) i)
      else (sc, [], Some (errorAt sc ''got EOF in back quote'')))"
  by pat_completeness auto
termination
  by (relation "measure (\<lambda>(sc, i). length (s sc) - pos sc)") (auto simp: advance_def)

declare parseBackQuote_loop.simps [simp del]

definition parseBackQuote :: "Scanner \<Rightarrow> parsed" where
  "parseBackQuote sc = (let sc1 = advance sc in parseBackQuote_loop sc1 (pos sc1))"

function parseQuote1_loop :: "Scanner \<Rightarrow> nat \<Rightarrow> parsed" where
  "parseQuote1_loop sc i =
     (if pos sc < length (s sc) then
        (if s sc ! pos sc = CHR 0x27 then (advance sc, slice (s sc) i (pos sc), None)
         else parseQuote1_loop (advance sc) i)
      else (sc, [], Some (errorAt sc ''got EOF in single quote'')))"
  by pat_completeness auto
termination
  by (relation "measure (\<lambda>(sc, i). length (s sc) - pos sc)") (auto simp: advance_def)

declare parseQuote1_loop.simps [simp del]

definition parseQuote1 :: "Scanner \<Rightarrow> parsed" where
  "parseQuote1 sc = (let sc1 = advance sc in parseQuote1_loop sc1 (pos sc1))"

function parseQuote2_loop :: "Scanner \<Rightarrow> nat \<Rightarrow> string \<Rightarrow> parsed" where
  "parseQuote2_loop sc i out =
     (if pos sc < length (s sc) then
        (if s sc ! pos sc = CHR 0x22 then (advance sc, out @ slice (s sc) i (pos sc), None)
         else if s sc ! pos sc = CHR 0x5C then
           (case parseBackslashEscape sc of
              (sc', escaped, Some e) \<Rightarrow> (sc', out @ slice (s sc) i (pos sc), Some e)
            | (sc', escaped, None) \<Rightarrow>
                parseQuote2_loop sc' (pos sc') (out @ slice (s sc) i (pos sc) @ escaped))
         else parseQuote2_loop (advance sc) i out)
      else (sc, [], Some (errorAt sc ''got EOF in double quote'')))"
  by pat_completeness auto
termination
  by (relation "measure (\<lambda>(sc, i, out). length (s sc) - pos sc)")
     (auto simp: advance_def parseBackslashEscape_def Let_def split: if_splits)

declare parseQuote2_loop.simps [simp del]

definition parseQuote2 :: "Scanner \<Rightarrow> parsed" where
  "parseQuote2 sc = (let sc1 = advance sc in parseQuote2_loop sc1 (pos sc1) [])"

function parseBareword_loop :: "Scanner \<Rightarrow> nat \<Rightarrow> string \<Rightarrow> parsed" where
  "parseBareword_loop sc i out =
     (if pos sc < length (s sc) then
        (if isSpace (s sc ! pos sc) then (sc, out @ slice (s sc) i (pos sc), None)
         else if isQuote1 (s sc ! pos sc) then
           (case parseQuote1 sc of
              (sc', inner, Some e) \<Rightarrow> (sc', out @ slice (s sc) i (pos sc), Some e)
            | (sc', inner, None) \<Rightarrow>
                parseBareword_loop sc' (pos sc') (out @ slice (s sc) i (pos sc) @ inner))
         else if isQuote2 (s sc ! pos sc) then
           (case parseQuote2 sc of
              (sc', inner, Some e) \<Rightarrow> (sc', out @ slice (s sc) i (pos sc), Some e)
            | (sc', inner, None) \<Rightarrow>
                parseBareword_loop sc' (pos sc') (out @ slice (s sc) i (pos sc) @ inner))
         else if s sc ! pos sc = CHR 0x0A then (sc, out @ slice (s sc) i (pos sc), None)
         else if s sc ! pos sc = CHR 0x5C then
           (case parseBackslashEscape sc of
              (sc', escaped, Some e) \<Rightarrow> (sc', out @ slice (s sc) i (pos sc), Some e)
            | (sc', escaped, None) \<Rightarrow>
                parseBareword_loop sc' (pos sc') (out @ slice (s sc) i (pos sc) @ escaped))
         else parseBareword_loop (advance sc) i out)
      else if out = [] then (sc, drop i (s sc), None)
      else (sc, out @ drop i (s sc), None))"
  by pat_completeness auto
termination
proof -
  have adv: "s (advance st) = s st" "pos (advance st) = pos st + 1" for st
    by (simp_all add: advance_def)
  have q1: "s (fst r) = s st \<and> pos st \<le> pos (fst r)" if "parseQuote1_loop st j = r" for st j r
    using that
  proof (induction st j arbitrary: r rule: parseQuote1_loop.induct)
    case (1 sc i)
    show ?case
    proof (cases "pos sc < length (s sc) \<and> s sc ! pos sc \<noteq> CHR 0x27")
      case True
      then have "parseQuote1_loop sc i = parseQuote1_loop (advance sc) i"
        by (subst parseQuote1_loop.simps) simp
      with 1 True show ?thesis by (fastforce simp: adv)
    next
      case False
      with "1.prems" show ?thesis
        by (subst (asm) parseQuote1_loop.simps) (auto simp: adv split: if_splits)
    qed
  qed
  have q2: "s (fst r) = s st \<and> pos st \<le> pos (fst r)"
    if "parseQuote2_loop st j acc = r" for st j acc r
    using that
  proof (induction st j acc arbitrary: r rule: parseQuote2_loop.induct)
    case (1 sc i out)
    show ?case
    proof (cases "pos sc < length (s sc)")
      case False
      with "1.prems" show ?thesis
        by (subst (asm) parseQuote2_loop.simps) auto
    next
      case lt: True
      show ?thesis
      proof (cases "s sc ! pos sc = CHR 0x22")
        case True
        with lt "1.prems" show ?thesis
          by (subst (asm) parseQuote2_loop.simps) (auto simp: adv)
      next
        case nq: False
        show ?thesis
        proof (cases "s sc ! pos sc = CHR 0x5C")
          case False
          with lt nq have "parseQuote2_loop sc i out = parseQuote2_loop (advance sc) i out"
            by (subst parseQuote2_loop.simps) simp
          with "1.IH"(2) [OF lt nq False] "1.prems" show ?thesis
            by (fastforce simp: adv)
        next
          case bs: True
          obtain sc' escaped e where pe: "parseBackslashEscape sc = (sc', escaped, e)"
            by (cases "parseBackslashEscape sc") auto
          have sp: "s sc' = s sc" "pos sc < pos sc'"
            using pe lt by (auto simp: parseBackslashEscape_def Let_def adv split: if_splits)
          show ?thesis
          proof (cases e)
            case (Some a)
            with lt nq bs pe "1.prems" sp show ?thesis
              by (subst (asm) parseQuote2_loop.simps) auto
          next
            case None
            with lt nq bs pe have "parseQuote2_loop sc i out
                = parseQuote2_loop sc' (pos sc') (out @ slice (s sc) i (pos sc) @ escaped)"
              by (subst parseQuote2_loop.simps) simp
            with "1.IH"(1) [OF lt nq bs pe [symmetric] refl] None "1.prems" sp show ?thesis
              by fastforce
          qed
        qed
      qed
    qed
  qed
  show ?thesis
  proof (relation "measure (\<lambda>(sc, i, out). length (s sc) - pos sc)", goal_cases)
    case 1
    show ?case by simp
  next
    case (2 sc i out x1 x2 x3 x4)
    have "parseQuote1 sc = (x1, x2)"
      using 2 by simp
    then have "parseQuote1_loop (advance sc) (pos (advance sc)) = (x1, x2)"
      by (simp add: parseQuote1_def Let_def)
    from q1 [OF this] have "s x1 = s sc" "pos sc < pos x1"
      by (simp_all add: adv)
    with 2(1) show ?case
      by simp
  next
    case (3 sc i out x1 x2 x3 x4)
    have "parseQuote2 sc = (x1, x2)"
      using 3 by simp
    then have "parseQuote2_loop (advance sc) (pos (advance sc)) [] = (x1, x2)"
      by (simp add: parseQuote2_def Let_def)
    from q2 [OF this] have "s x1 = s sc" "pos sc < pos x1"
      by (simp_all add: adv)
    with 3(1) show ?case
      by simp
  next
    case (4 sc i out x1 x2 x3 x4)
    then show ?case
      by (auto simp: parseBackslashEscape_def Let_def adv split: if_splits)
  next
    case (5 sc i out)
    then show ?case by (simp add: adv)
  qed
qed

declare parseBareword_loop.simps [simp del]

definition parseBareword :: "Scanner \<Rightarrow> parsed" where
  "parseBareword sc = parseBareword_loop sc (pos sc) []"

subsection \<open>Library functions of Go used by the code\<close>

text \<open>\<open>strings.Split(str, "\n")\<close>: the pieces between the newline bytes, one more
  than there are newlines.\<close>

fun Split :: "string \<Rightarrow> string list" where
  "Split [] = [[]]"
| "Split (c # cs) =
     (if c = CHR 0x0A then [] # Split cs
      else (case Split cs of [] \<Rightarrow> [[c]] | l # ls \<Rightarrow> (c # l) # ls))"

text \<open>\<open>strings.Join(elems, sep)\<close>.\<close>

fun Join :: "string list \<Rightarrow> string \<Rightarrow> string" where
  "Join [] sep = []"
| "Join [x] sep = x"
| "Join (x # y # ys) sep = x @ sep @ Join (y # ys) sep"

text \<open>\<open>strings.TrimSpace(l) == ""\<close>: \<open>TrimSpace\<close> removes the leading and trailing
  white space code points of Unicode (\<open>unicode.IsSpace\<close>), read in UTF-8; what is left
  is empty exactly when the line is a sequence of such code points. They are the six
  of ASCII, U+0085 and U+00A0 (two bytes each), and U+1680, U+2000 to U+200A, U+2028,
  U+2029, U+202F, U+205F and U+3000 (three bytes each).\<close>

definition asciiSpace :: "char list" where
  "asciiSpace = [CHR 0x09, CHR 0x0A, CHR 0x0B, CHR 0x0C, CHR 0x0D, CHR 0x20]"

definition space2 :: "string list" where
  "space2 = [[CHR 0xC2, CHR 0x85], [CHR 0xC2, CHR 0xA0]]"

definition space3 :: "string list" where
  "space3 =
     [[CHR 0xE1, CHR 0x9A, CHR 0x80],
      [CHR 0xE2, CHR 0x80, CHR 0x80], [CHR 0xE2, CHR 0x80, CHR 0x81],
      [CHR 0xE2, CHR 0x80, CHR 0x82], [CHR 0xE2, CHR 0x80, CHR 0x83],
      [CHR 0xE2, CHR 0x80, CHR 0x84], [CHR 0xE2, CHR 0x80, CHR 0x85],
      [CHR 0xE2, CHR 0x80, CHR 0x86], [CHR 0xE2, CHR 0x80, CHR 0x87],
      [CHR 0xE2, CHR 0x80, CHR 0x88], [CHR 0xE2, CHR 0x80, CHR 0x89],
      [CHR 0xE2, CHR 0x80, CHR 0x8A],
      [CHR 0xE2, CHR 0x80, CHR 0xA8], [CHR 0xE2, CHR 0x80, CHR 0xA9],
      [CHR 0xE2, CHR 0x80, CHR 0xAF], [CHR 0xE2, CHR 0x81, CHR 0x9F],
      [CHR 0xE3, CHR 0x80, CHR 0x80]]"

fun TrimSpace_empty :: "string \<Rightarrow> bool" where
  "TrimSpace_empty [] = True"
| "TrimSpace_empty (c # cs) =
     (if c \<in> set asciiSpace then TrimSpace_empty cs
      else if take 2 (c # cs) \<in> set space2 then TrimSpace_empty (drop 1 cs)
      else if take 3 (c # cs) \<in> set space3 then TrimSpace_empty (drop 2 cs)
      else False)"


subsection \<open>Dedent\<close>

text \<open>The leading run of spaces and tabs of a line: the \<open>range\<close> loop stops at the
  first code point that is neither, and both are single bytes.\<close>

definition leadingWS :: "string \<Rightarrow> string" where
  "leadingWS ln = takeWhile (\<lambda>c. c = CHR '' '' \<or> c = CHR 0x09) ln"

text \<open>The inner loop of the prefix computation: the bytes of \<open>commonPrefix\<close> and
  \<open>ws\<close> that agree, up to the first that differs or the end of the shorter. Both are
  runs of spaces and tabs, for which \<open>string(commonPrefix[i])\<close> is the byte itself.\<close>

fun newCommon :: "string \<Rightarrow> string \<Rightarrow> string" where
  "newCommon (a # as) (b # bs) = (if a = b then a # newCommon as bs else [])"
| "newCommon as bs = []"

definition dedent :: "string \<Rightarrow> string" where
  "dedent str =
     (if str = [] then str
      else
        let lines = Split str in
        if length lines \<le> 1 then str
        else
          let nonEmptyLines = filter (\<lambda>ln. \<not> TrimSpace_empty ln) lines;
              leadingWhitespace = map leadingWS nonEmptyLines
          in
          if length nonEmptyLines = 0 then str
          else
            let commonPrefix = foldl newCommon (hd leadingWhitespace) (tl leadingWhitespace) in
            if commonPrefix = [] then str
            else
              let prefixLen = length commonPrefix;
                  result = map (\<lambda>ln.
                      if TrimSpace_empty ln then ln
                      else if length ln \<ge> prefixLen \<and> take prefixLen ln = commonPrefix
                        then drop prefixLen ln
                      else ln) lines
              in Join result [CHR 0x0A])"



subsection \<open>Brace blocks\<close>

function parseBrace_loop :: "Scanner \<Rightarrow> nat \<Rightarrow> string \<Rightarrow> int \<Rightarrow> parsed" where
  "parseBrace_loop sc i out stack =
     (if pos sc < length (s sc) then
        (if s sc ! pos sc = CHR 0x5C then
           (case parseBraceEscape sc of
              (sc', escaped, Some e) \<Rightarrow> (sc', out @ slice (s sc) i (pos sc), Some e)
            | (sc', escaped, None) \<Rightarrow>
                parseBrace_loop sc' (pos sc') (out @ slice (s sc) i (pos sc) @ escaped) stack)
         else if s sc ! pos sc = CHR ''{'' then parseBrace_loop (advance sc) i out (stack + 1)
         else if s sc ! pos sc = CHR ''}'' then
           (if stack - 1 = 0 then (advance sc, dedent (out @ slice (s sc) i (pos sc)), None)
            else parseBrace_loop (advance sc) i out (stack - 1))
         else parseBrace_loop (advance sc) i out stack)
      else (sc, [], Some (errorAt sc ''got EOF in opening brace'')))"
  by pat_completeness auto
termination
  by (relation "measure (\<lambda>(sc, i, out, stack). length (s sc) - pos sc)")
     (auto simp: advance_def parseBraceEscape_def Let_def split: if_splits)

declare parseBrace_loop.simps [simp del]

definition parseBrace :: "Scanner \<Rightarrow> parsed" where
  "parseBrace sc = (let sc1 = advance sc in parseBrace_loop sc1 (pos sc1) [] 1)"

subsection \<open>The iterator\<close>

text \<open>\<open>Next\<close> returns the arguments, the body and the error; the model also returns
  the scanner it leaves behind. The arguments are a list: Go's \<open>nil\<close> slice and its
  empty slice are both \<open>[]\<close>. The loop has no bound of its own: it is a partial
  function, and \<open>None\<close> means that the call does not return. Where no case of the
  \<open>switch\<close> matches, the loop goes round with the scanner as it is.\<close>

type_synonym command = "Scanner \<times> string list \<times> string \<times> err option"

partial_function (option) Next_loop :: "Scanner \<Rightarrow> string list \<Rightarrow> command option" where
  "Next_loop sc args =
     (if pos sc < length (s sc) then
        (if isSpace (s sc ! pos sc) then Next_loop (advance sc) args
         else if isBareword (s sc ! pos sc) \<or> isQuote1 (s sc ! pos sc)
                 \<or> isQuote2 (s sc ! pos sc) \<or> s sc ! pos sc = CHR 0x5C then
           (case parseBareword sc of
              (sc', arg, Some e) \<Rightarrow> Some (sc', args, [], Some (ScanErr e))
            | (sc', arg, None) \<Rightarrow> Next_loop sc' (args @ [arg]))
         else if isBackQuote (s sc ! pos sc) then
           (case parseBackQuote sc of
              (sc', arg, Some e) \<Rightarrow> Some (sc', args, [], Some (ScanErr e))
            | (sc', arg, None) \<Rightarrow> Next_loop sc' (args @ [arg]))
         else if isLeftBrace (s sc ! pos sc) then
           (case parseBrace sc of
              (sc', body, e) \<Rightarrow> Some (sc', args, body, map_option ScanErr e))
         else if isNewLine (s sc ! pos sc) then
           (if length args > 0 then Some (advance sc, args, [], None)
            else Next_loop (advance sc) args)
         else Next_loop sc args)
      else if length args = 0 then Some (sc, [], [], Some EOF)
      else Some (sc, args, [], None))"

declare Next_loop.simps [code]

definition Next :: "Scanner \<Rightarrow> command option" where
  "Next sc = Next_loop sc []"

subsection \<open>The formatter\<close>

fun isBarewordString_loop :: "string \<Rightarrow> bool" where
  "isBarewordString_loop [] = True"
| "isBarewordString_loop (b # bs) =
     (if \<not> isBareword b \<or> b = CHR 0x5C then False else isBarewordString_loop bs)"

definition isBarewordString :: "string \<Rightarrow> bool" where
  "isBarewordString str = (if str = [] then False else isBarewordString_loop str)"

definition lowerhex :: "nat \<Rightarrow> char" where
  "lowerhex n = ''0123456789abcdef'' ! (n mod 16)"

text \<open>\<open>fmt.Sprintf("\\x%02x", b)\<close> for a byte.\<close>

definition hexEscape :: "char \<Rightarrow> string" where
  "hexEscape b = [CHR 0x5C, CHR ''x'', lowerhex (of_char b div 16), lowerhex (of_char b mod 16)]"

text \<open>\<open>strconv.Quote\<close> of the Go library, byte by byte on ASCII: the quote and the
  backslash are escaped, the printable bytes 0x20 to 0x7E stand for themselves, seven
  control bytes have a letter, and the other control bytes and 0x7F are written
  \<open>\xHH\<close>. On a byte from 0x80 on, Go decodes UTF-8 and consults the Unicode tables
  (a printable code point is copied, another is written \<open>\u\<close> or \<open>\U\<close>, a byte that
  is no UTF-8 is written \<open>\xHH\<close>); the tables are not modelled, and the model
  writes \<open>\xHH\<close> for every such byte. The results below that go through
  \<open>strconv_Quote\<close> are about ASCII arguments.\<close>

definition strconv_Quote_byte :: "char \<Rightarrow> string" where
  "strconv_Quote_byte b =
     (if b = CHR 0x22 \<or> b = CHR 0x5C then [CHR 0x5C, b]
      else if 32 \<le> (of_char b :: nat) \<and> (of_char b :: nat) < 127 then [b]
      else if b = CHR 0x07 then [CHR 0x5C, CHR ''a'']
      else if b = CHR 0x08 then [CHR 0x5C, CHR ''b'']
      else if b = CHR 0x0C then [CHR 0x5C, CHR ''f'']
      else if b = CHR 0x0A then [CHR 0x5C, CHR ''n'']
      else if b = CHR 0x0D then [CHR 0x5C, CHR ''r'']
      else if b = CHR 0x09 then [CHR 0x5C, CHR ''t'']
      else if b = CHR 0x0B then [CHR 0x5C, CHR ''v'']
      else hexEscape b)"

definition strconv_Quote :: "string \<Rightarrow> string" where
  "strconv_Quote str = [CHR 0x22] @ concat (map strconv_Quote_byte str) @ [CHR 0x22]"

text \<open>The \<open>switch\<close> of \<open>quoteArg\<close>'s loop.\<close>

definition quoteArg_byte :: "char \<Rightarrow> string" where
  "quoteArg_byte b =
     (if b = CHR 0x22 then [CHR 0x5C, CHR 0x22]
      else if b = CHR 0x5C then [CHR 0x5C, CHR 0x5C]
      else if b = CHR ''{'' then [CHR 0x5C, CHR ''{'']
      else if b = CHR ''}'' then [CHR 0x5C, CHR ''}'']
      else if b = CHR 0x0A then [CHR 0x5C, CHR ''n'']
      else if b = CHR 0x0D then [CHR 0x5C, CHR ''r'']
      else if b = CHR 0x09 then [CHR 0x5C, CHR ''t'']
      else if (of_char b :: nat) < 32 then hexEscape b
      else [b])"

definition quoteArg :: "string \<Rightarrow> string" where
  "quoteArg str =
     (if list_ex (\<lambda>c. c = CHR ''{'' \<or> c = CHR ''}'') str
      then [CHR 0x22] @ concat (map quoteArg_byte str) @ [CHR 0x22]
      else strconv_Quote str)"

definition FormatIndent :: "string list \<Rightarrow> string \<Rightarrow> string \<Rightarrow> string" where
  "FormatIndent args body indent =
     (let parts = map (\<lambda>arg. if isBarewordString arg then arg else quoteArg arg) args;
          result = Join parts '' ''
      in
      if body \<noteq> [] then
        result @ '' {'' @ [CHR 0x0A]
          @ (if indent \<noteq> []
             then concat (map (\<lambda>ln. indent @ ln @ [CHR 0x0A]) (Split body))
             else body @ [CHR 0x0A])
          @ ''}''
      else result)"

definition Format :: "string list \<Rightarrow> string \<Rightarrow> string" where
  "Format args body = FormatIndent args body []"

text \<open>What the caller of \<open>Next\<close> sees: the arguments, the body and the error.\<close>

definition returned :: "command option \<Rightarrow> (string list \<times> string \<times> err option) option" where
  "returned r = map_option snd r"

subsection \<open>Arguments and bodies that survive formatting and parsing\<close>

text \<open>
  Three notions that are not functions of the code: they say for which arguments and
  bodies the text written by \<open>Format\<close> is read back by \<open>Next\<close>.

  An encoding of a byte inside double quotes is read back as the byte when it is the
  byte itself (no quote, no backslash), or a backslash and a byte that
  \<open>parseBackslashEscape\<close> turns into it.
\<close>

definition decodes :: "(char \<Rightarrow> string) \<Rightarrow> char \<Rightarrow> bool" where
  "decodes enc b =
     ((enc b = [b] \<and> b \<noteq> CHR 0x22 \<and> b \<noteq> CHR 0x5C)
      \<or> (\<exists>x. enc b = [CHR 0x5C, x] \<and> backslashEscape_value x = [b]))"

text \<open>The printable bytes of ASCII, the newline, the carriage return and the tab.\<close>

definition plain_byte :: "char \<Rightarrow> bool" where
  "plain_byte c =
     ((32 \<le> (of_char c :: nat) \<and> (of_char c :: nat) < 127)
      \<or> c = CHR 0x0A \<or> c = CHR 0x0D \<or> c = CHR 0x09)"

text \<open>
  \<open>brace_safe d B\<close>: read by the brace parser at depth \<open>d + 1\<close>, the body \<open>B\<close> comes
  out as it is and leaves the block open: its braces are balanced (no closing brace
  without an opening one before it, as many closing as opening ones plus \<open>d\<close>),
  and no backslash of it stands before a brace, a backslash or a byte from 0x80 on; a
  backslash before another byte is kept with that byte by the brace parser and counts
  for nothing. (After a backslash the brace parser writes a byte from 0x80 on as two
  bytes, \<open>string_of_byte\<close>.)
\<close>

fun brace_safe :: "nat \<Rightarrow> string \<Rightarrow> bool" where
  "brace_safe d [] = (d = 0)"
| "brace_safe d (c # cs) =
     (if c = CHR 0x5C then
        (case cs of
           [] \<Rightarrow> d = 0
         | e # es \<Rightarrow>
             e \<noteq> CHR ''{'' \<and> e \<noteq> CHR ''}'' \<and> e \<noteq> CHR 0x5C \<and> (of_char e :: nat) < 128
             \<and> brace_safe d es)
      else if c = CHR ''{'' then brace_safe (Suc d) cs
      else if c = CHR ''}'' then d \<noteq> 0 \<and> brace_safe (d - 1) cs
      else brace_safe d cs)"

section \<open>Basic facts about the cursor\<close>

lemma advance_s [simp]: "s (advance sc) = s sc"
  by (simp add: advance_def)

lemma advance_pos [simp]: "pos (advance sc) = pos sc + 1"
  by (simp add: advance_def)

lemma advance_baseOffset [simp]: "baseOffset (advance sc) = baseOffset sc"
  by (simp add: advance_def)

lemma parseBackslashEscape_s:
  "parseBackslashEscape sc = (sc', r) \<Longrightarrow> s sc' = s sc"
  by (auto simp: parseBackslashEscape_def Let_def split: if_splits)

lemma parseBackslashEscape_pos:
  "parseBackslashEscape sc = (sc', r) \<Longrightarrow> pos sc < length (s sc) \<Longrightarrow> pos sc < pos sc'"
  by (auto simp: parseBackslashEscape_def Let_def split: if_splits)

lemma parseBraceEscape_s:
  "parseBraceEscape sc = (sc', r) \<Longrightarrow> s sc' = s sc"
  by (auto simp: parseBraceEscape_def Let_def split: if_splits)

lemma parseBraceEscape_pos:
  "parseBraceEscape sc = (sc', r) \<Longrightarrow> pos sc < length (s sc) \<Longrightarrow> pos sc < pos sc'"
  by (auto simp: parseBraceEscape_def Let_def split: if_splits)

lemma funpow_advance_pos: "pos ((advance ^^ n) sc) = pos sc + n"
  by (induction n) simp_all

lemma funpow_advance_baseOffset: "baseOffset ((advance ^^ n) sc) = baseOffset sc"
  by (induction n) simp_all

lemma dedent_Nil [simp]: "dedent [] = []"
  by (simp add: dedent_def)

lemma slice_same [simp]: "slice xs i i = []"
  by (simp add: slice_def)

lemma nth_pos_of_drop:
  "drop n xs = y # ys \<Longrightarrow> n < length xs \<and> xs ! n = y \<and> drop (Suc n) xs = ys"
  by (metis Cons_nth_drop_Suc drop_eq_Nil list.distinct(1) list.inject not_le)

lemma advance_plain:
  "pos sc < length (s sc) \<Longrightarrow> s sc ! pos sc \<noteq> CHR 0x0A \<Longrightarrow>
   advance sc = sc\<lparr>column := column sc + 1, pos := pos sc + 1\<rparr>"
  by (simp add: advance_def)

lemma parseBareword_loop_run:
  assumes "drop (pos sc) (s sc) = w @ rest"
    and "list_all (\<lambda>b. \<not> isSpace b \<and> \<not> isQuote1 b \<and> \<not> isQuote2 b
                        \<and> b \<noteq> CHR 0x0A \<and> b \<noteq> CHR 0x5C) w"
    and "rest = [] \<or> isSpace (hd rest) \<or> hd rest = CHR 0x0A"
    and "i \<le> pos sc"
  shows "parseBareword_loop sc i out
     = (sc\<lparr>column := column sc + int (length w), pos := pos sc + length w\<rparr>,
        out @ slice (s sc) i (pos sc + length w), None)"
  using assms
proof (induction w arbitrary: sc)
  case Nil
  show ?case
  proof (cases rest)
    case Nil
    with Nil.prems have "length (s sc) \<le> pos sc"
      by simp
    then show ?thesis
      using Nil.prems(4) by (subst parseBareword_loop.simps) (simp add: slice_def)
  next
    case (Cons r rs)
    with Nil.prems(1) have "pos sc < length (s sc)" "s sc ! pos sc = r"
      using nth_pos_of_drop [of "pos sc" "s sc" r rs] by simp_all
    with Cons Nil.prems(3) show ?thesis
      by (subst parseBareword_loop.simps) (auto simp: isSpace_def isQuote1_def isQuote2_def)
  qed
next
  case (Cons b w)
  from Cons.prems(1) have lt: "pos sc < length (s sc)" and b: "s sc ! pos sc = b"
    and dr: "drop (Suc (pos sc)) (s sc) = w @ rest"
    using nth_pos_of_drop [of "pos sc" "s sc" b "w @ rest"] by simp_all
  from Cons.prems(2) have pb: "\<not> isSpace b" "\<not> isQuote1 b" "\<not> isQuote2 b"
    "b \<noteq> CHR 0x0A" "b \<noteq> CHR 0x5C"
    and pw: "list_all (\<lambda>b. \<not> isSpace b \<and> \<not> isQuote1 b \<and> \<not> isQuote2 b
                        \<and> b \<noteq> CHR 0x0A \<and> b \<noteq> CHR 0x5C) w"
    by simp_all
  have adv: "advance sc = sc\<lparr>column := column sc + 1, pos := pos sc + 1\<rparr>"
    using lt b pb by (simp add: advance_plain)
  have "parseBareword_loop sc i out = parseBareword_loop (advance sc) i out"
    using lt b pb by (subst parseBareword_loop.simps) simp
  also have "\<dots> = ((advance sc)\<lparr>column := column (advance sc) + int (length w),
                                 pos := pos (advance sc) + length w\<rparr>,
        out @ slice (s (advance sc)) i (pos (advance sc) + length w), None)"
    using dr pw Cons.prems(3,4) by (intro Cons.IH) simp_all
  finally show ?case
    by (simp add: adv)
qed

section \<open>Every sub-parser moves the cursor forward\<close>

lemma parseBackQuote_loop_progress:
  "parseBackQuote_loop sc i = (sc', r) \<Longrightarrow> s sc' = s sc \<and> pos sc \<le> pos sc'"
proof (induction sc i arbitrary: sc' r rule: parseBackQuote_loop.induct)
  case (1 sc i)
  show ?case
  proof (cases "pos sc < length (s sc) \<and> s sc ! pos sc \<noteq> CHR 0x60")
    case True
    then have "parseBackQuote_loop sc i = parseBackQuote_loop (advance sc) i"
      by (subst parseBackQuote_loop.simps) simp
    with "1.prems" have "parseBackQuote_loop (advance sc) i = (sc', r)"
      by simp
    from "1.IH" [OF _ _ this] True show ?thesis
      by simp
  next
    case False
    with "1.prems" show ?thesis
      by (subst (asm) parseBackQuote_loop.simps) (auto split: if_splits)
  qed
qed

lemma parseQuote1_loop_progress:
  "parseQuote1_loop sc i = (sc', r) \<Longrightarrow> s sc' = s sc \<and> pos sc \<le> pos sc'"
proof (induction sc i arbitrary: sc' r rule: parseQuote1_loop.induct)
  case (1 sc i)
  show ?case
  proof (cases "pos sc < length (s sc) \<and> s sc ! pos sc \<noteq> CHR 0x27")
    case True
    then have "parseQuote1_loop sc i = parseQuote1_loop (advance sc) i"
      by (subst parseQuote1_loop.simps) simp
    with "1.prems" have "parseQuote1_loop (advance sc) i = (sc', r)"
      by simp
    from "1.IH" [OF _ _ this] True show ?thesis
      by simp
  next
    case False
    with "1.prems" show ?thesis
      by (subst (asm) parseQuote1_loop.simps) (auto split: if_splits)
  qed
qed

lemma parseQuote2_loop_progress:
  "parseQuote2_loop sc i out = (sc', r) \<Longrightarrow> s sc' = s sc \<and> pos sc \<le> pos sc'"
proof (induction sc i out arbitrary: sc' r rule: parseQuote2_loop.induct)
  case (1 sc i out)
  show ?case
  proof (cases "pos sc < length (s sc)")
    case False
    with "1.prems" show ?thesis
      by (subst (asm) parseQuote2_loop.simps) auto
  next
    case lt: True
    show ?thesis
    proof (cases "s sc ! pos sc = CHR 0x22")
      case True
      with lt "1.prems" show ?thesis
        by (subst (asm) parseQuote2_loop.simps) auto
    next
      case nq: False
      show ?thesis
      proof (cases "s sc ! pos sc = CHR 0x5C")
        case False
        with lt nq have "parseQuote2_loop sc i out = parseQuote2_loop (advance sc) i out"
          by (subst parseQuote2_loop.simps) simp
        with "1.prems" have "parseQuote2_loop (advance sc) i out = (sc', r)"
          by simp
        from "1.IH"(2) [OF lt nq False this] show ?thesis
          by simp
      next
        case bs: True
        obtain sc1 escaped e where pe: "parseBackslashEscape sc = (sc1, escaped, e)"
          by (cases "parseBackslashEscape sc") auto
        have sp: "s sc1 = s sc" "pos sc < pos sc1"
          using parseBackslashEscape_s [OF pe] parseBackslashEscape_pos [OF pe lt] by simp_all
        show ?thesis
        proof (cases e)
          case (Some a)
          with lt nq bs pe "1.prems" sp show ?thesis
            by (subst (asm) parseQuote2_loop.simps) auto
        next
          case None
          with lt nq bs pe have "parseQuote2_loop sc i out
              = parseQuote2_loop sc1 (pos sc1) (out @ slice (s sc) i (pos sc) @ escaped)"
            by (subst parseQuote2_loop.simps) simp
          with "1.prems" have "parseQuote2_loop sc1 (pos sc1)
              (out @ slice (s sc) i (pos sc) @ escaped) = (sc', r)"
            by simp
          from "1.IH"(1) [OF lt nq bs pe [symmetric] refl _ this] None sp show ?thesis
            by simp
        qed
      qed
    qed
  qed
qed

lemma parseQuote1_progress:
  "parseQuote1 sc = (sc', r) \<Longrightarrow> s sc' = s sc \<and> pos sc < pos sc'"
  using parseQuote1_loop_progress [of "advance sc" "pos (advance sc)" sc' r]
  by (simp add: parseQuote1_def Let_def)

lemma parseQuote2_progress:
  "parseQuote2 sc = (sc', r) \<Longrightarrow> s sc' = s sc \<and> pos sc < pos sc'"
  using parseQuote2_loop_progress [of "advance sc" "pos (advance sc)" "[]" sc' r]
  by (simp add: parseQuote2_def Let_def)

lemma parseBackQuote_progress:
  "parseBackQuote sc = (sc', r) \<Longrightarrow> s sc' = s sc \<and> pos sc < pos sc'"
  using parseBackQuote_loop_progress [of "advance sc" "pos (advance sc)" sc' r]
  by (simp add: parseBackQuote_def Let_def)


lemma parseBareword_loop_progress:
  "parseBareword_loop sc i out = (sc', r) \<Longrightarrow> s sc' = s sc \<and> pos sc \<le> pos sc'"
proof (induction sc i out arbitrary: sc' r rule: parseBareword_loop.induct)
  case (1 sc i out)
  let ?b = "s sc ! pos sc"
  show ?case
  proof (cases "pos sc < length (s sc)")
    case False
    with "1.prems" show ?thesis
      by (subst (asm) parseBareword_loop.simps) (auto split: if_splits)
  next
    case lt: True
    consider (stop) "isSpace ?b \<or> (\<not> isQuote1 ?b \<and> \<not> isQuote2 ?b \<and> ?b = CHR 0x0A)"
      | (q1) "\<not> isSpace ?b" "isQuote1 ?b"
      | (q2) "\<not> isSpace ?b" "\<not> isQuote1 ?b" "isQuote2 ?b"
      | (esc) "\<not> isSpace ?b" "\<not> isQuote1 ?b" "\<not> isQuote2 ?b" "?b \<noteq> CHR 0x0A" "?b = CHR 0x5C"
      | (oth) "\<not> isSpace ?b" "\<not> isQuote1 ?b" "\<not> isQuote2 ?b" "?b \<noteq> CHR 0x0A" "?b \<noteq> CHR 0x5C"
      by blast
    then show ?thesis
    proof cases
      case stop
      with lt "1.prems" show ?thesis
        by (subst (asm) parseBareword_loop.simps) (auto split: if_splits)
    next
      case q1
      obtain sc1 inner e where p: "parseQuote1 sc = (sc1, inner, e)"
        by (cases "parseQuote1 sc") auto
      from parseQuote1_progress [OF p] have sp: "s sc1 = s sc" "pos sc < pos sc1"
        by simp_all
      show ?thesis
      proof (cases e)
        case (Some a)
        with lt q1 p "1.prems" sp show ?thesis
          by (subst (asm) parseBareword_loop.simps) auto
      next
        case None
        with lt q1 p have "parseBareword_loop sc i out
            = parseBareword_loop sc1 (pos sc1) (out @ slice (s sc) i (pos sc) @ inner)"
          by (subst parseBareword_loop.simps) simp
        with "1.prems" have "parseBareword_loop sc1 (pos sc1)
            (out @ slice (s sc) i (pos sc) @ inner) = (sc', r)"
          by simp
        from "1.IH"(1) [OF lt q1 p [symmetric] refl _ this] None sp show ?thesis
          by simp
      qed
    next
      case q2
      obtain sc1 inner e where p: "parseQuote2 sc = (sc1, inner, e)"
        by (cases "parseQuote2 sc") auto
      from parseQuote2_progress [OF p] have sp: "s sc1 = s sc" "pos sc < pos sc1"
        by simp_all
      show ?thesis
      proof (cases e)
        case (Some a)
        with lt q2 p "1.prems" sp show ?thesis
          by (subst (asm) parseBareword_loop.simps) auto
      next
        case None
        with lt q2 p have "parseBareword_loop sc i out
            = parseBareword_loop sc1 (pos sc1) (out @ slice (s sc) i (pos sc) @ inner)"
          by (subst parseBareword_loop.simps) simp
        with "1.prems" have "parseBareword_loop sc1 (pos sc1)
            (out @ slice (s sc) i (pos sc) @ inner) = (sc', r)"
          by simp
        from "1.IH"(2) [OF lt q2 p [symmetric] refl _ this] None sp show ?thesis
          by simp
      qed
    next
      case esc
      obtain sc1 escaped e where p: "parseBackslashEscape sc = (sc1, escaped, e)"
        by (cases "parseBackslashEscape sc") auto
      have sp: "s sc1 = s sc" "pos sc < pos sc1"
        using parseBackslashEscape_s [OF p] parseBackslashEscape_pos [OF p lt] by simp_all
      show ?thesis
      proof (cases e)
        case (Some a)
        with lt esc p "1.prems" sp show ?thesis
          by (subst (asm) parseBareword_loop.simps) auto
      next
        case None
        with lt esc p have "parseBareword_loop sc i out
            = parseBareword_loop sc1 (pos sc1) (out @ slice (s sc) i (pos sc) @ escaped)"
          by (subst parseBareword_loop.simps) simp
        with "1.prems" have "parseBareword_loop sc1 (pos sc1)
            (out @ slice (s sc) i (pos sc) @ escaped) = (sc', r)"
          by simp
        from "1.IH"(3) [OF lt esc p [symmetric] refl _ this] None sp show ?thesis
          by simp
      qed
    next
      case oth
      with lt have "parseBareword_loop sc i out = parseBareword_loop (advance sc) i out"
        by (subst parseBareword_loop.simps) simp
      with "1.prems" have "parseBareword_loop (advance sc) i out = (sc', r)"
        by simp
      from "1.IH"(4) [OF lt oth this] show ?thesis
        by simp
    qed
  qed
qed


lemma parseBareword_moves:
  assumes "parseBareword sc = (sc', a, None)"
    and "pos sc < length (s sc)"
    and "\<not> isSpace (s sc ! pos sc)"
    and "s sc ! pos sc \<noteq> CHR 0x0A"
  shows "s sc' = s sc \<and> pos sc < pos sc'"
proof -
  let ?b = "s sc ! pos sc"
  from assms(1) have run: "parseBareword_loop sc (pos sc) [] = (sc', a, None)"
    by (simp add: parseBareword_def)
  consider (q1) "isQuote1 ?b"
    | (q2) "\<not> isQuote1 ?b" "isQuote2 ?b"
    | (esc) "\<not> isQuote1 ?b" "\<not> isQuote2 ?b" "?b = CHR 0x5C"
    | (oth) "\<not> isQuote1 ?b" "\<not> isQuote2 ?b" "?b \<noteq> CHR 0x5C"
    by blast
  then show ?thesis
  proof cases
    case q1
    obtain sc1 inner e where p: "parseQuote1 sc = (sc1, inner, e)"
      by (cases "parseQuote1 sc") auto
    from parseQuote1_progress [OF p] have sp: "s sc1 = s sc" "pos sc < pos sc1"
      by simp_all
    from run assms(2,3) q1 p have "e = None"
      by (subst (asm) parseBareword_loop.simps) (auto split: option.splits)
    with run assms(2,3) q1 p have "parseBareword_loop sc1 (pos sc1)
        (slice (s sc) (pos sc) (pos sc) @ inner) = (sc', a, None)"
      by (subst (asm) parseBareword_loop.simps) simp
    from parseBareword_loop_progress [OF this] sp show ?thesis
      by simp
  next
    case q2
    obtain sc1 inner e where p: "parseQuote2 sc = (sc1, inner, e)"
      by (cases "parseQuote2 sc") auto
    from parseQuote2_progress [OF p] have sp: "s sc1 = s sc" "pos sc < pos sc1"
      by simp_all
    from run assms(2,3) q2 p have "e = None"
      by (subst (asm) parseBareword_loop.simps) (auto split: option.splits)
    with run assms(2,3) q2 p have "parseBareword_loop sc1 (pos sc1)
        (slice (s sc) (pos sc) (pos sc) @ inner) = (sc', a, None)"
      by (subst (asm) parseBareword_loop.simps) simp
    from parseBareword_loop_progress [OF this] sp show ?thesis
      by simp
  next
    case esc
    obtain sc1 escaped e where p: "parseBackslashEscape sc = (sc1, escaped, e)"
      by (cases "parseBackslashEscape sc") auto
    have sp: "s sc1 = s sc" "pos sc < pos sc1"
      using parseBackslashEscape_s [OF p] parseBackslashEscape_pos [OF p assms(2)] by simp_all
    from run assms(2,3,4) esc p have "e = None"
      by (subst (asm) parseBareword_loop.simps) (auto split: option.splits)
    with run assms(2,3,4) esc p have "parseBareword_loop sc1 (pos sc1)
        (slice (s sc) (pos sc) (pos sc) @ escaped) = (sc', a, None)"
      by (subst (asm) parseBareword_loop.simps) simp
    from parseBareword_loop_progress [OF this] sp show ?thesis
      by simp
  next
    case oth
    with run assms(2,3,4) have "parseBareword_loop (advance sc) (pos sc) [] = (sc', a, None)"
      by (subst (asm) parseBareword_loop.simps) simp
    from parseBareword_loop_progress [OF this] show ?thesis
      by simp
  qed
qed

section \<open>Facts about lines and common prefixes\<close>

lemma Split_not_Nil [simp]: "Split str \<noteq> []"
  by (induction str) (auto split: list.splits)

lemma Split_no_newline: "CHR 0x0A \<notin> set x \<Longrightarrow> Split x = [x]"
  by (induction x) auto

lemma Split_append_newline:
  "CHR 0x0A \<notin> set x \<Longrightarrow> Split (x @ CHR 0x0A # rest) = x # Split rest"
  by (induction x) (auto split: list.splits)

lemma Split_lines_no_newline: "ln \<in> set (Split str) \<Longrightarrow> CHR 0x0A \<notin> set ln"
  by (induction str arbitrary: ln) (auto split: if_splits list.splits)

lemma Split_Join:
  "ls \<noteq> [] \<Longrightarrow> \<forall>ln\<in>set ls. CHR 0x0A \<notin> set ln \<Longrightarrow> Split (Join ls [CHR 0x0A]) = ls"
  by (induction ls "[CHR 0x0A]" rule: Join.induct)
     (simp_all add: Split_no_newline Split_append_newline)

lemma newCommon_prefix_left: "prefix (newCommon a b) a"
  by (induction a b rule: newCommon.induct) simp_all

lemma newCommon_prefix_right: "prefix (newCommon a b) b"
  by (induction a b rule: newCommon.induct) simp_all

lemma newCommon_drop:
  "n \<le> length (newCommon a b) \<Longrightarrow> newCommon (drop n a) (drop n b) = drop n (newCommon a b)"
  by (induction a b arbitrary: n rule: newCommon.induct)
     (auto simp: drop_Cons split: nat.splits)

lemma foldl_newCommon_prefix: "prefix (foldl newCommon a ws) a"
proof (induction ws arbitrary: a)
  case Nil
  show ?case by simp
next
  case (Cons w ws)
  have "prefix (foldl newCommon (newCommon a w) ws) (newCommon a w)"
    by (rule Cons.IH)
  then show ?case
    using newCommon_prefix_left [of a w] by (simp add: prefix_order.order_trans)
qed

lemma foldl_newCommon_prefix_all: "w \<in> set ws \<Longrightarrow> prefix (foldl newCommon a ws) w"
proof (induction ws arbitrary: a)
  case Nil
  then show ?case by simp
next
  case (Cons v ws)
  show ?case
  proof (cases "w = v")
    case True
    have "prefix (foldl newCommon (newCommon a v) ws) (newCommon a v)"
      by (rule foldl_newCommon_prefix)
    with True show ?thesis
      using newCommon_prefix_right [of a v] by (simp add: prefix_order.order_trans)
  next
    case False
    with Cons.prems have "w \<in> set ws"
      by simp
    then show ?thesis
      by (simp add: Cons.IH)
  qed
qed

lemma foldl_newCommon_drop:
  "n \<le> length (foldl newCommon a ws) \<Longrightarrow>
   foldl newCommon (drop n a) (map (drop n) ws) = drop n (foldl newCommon a ws)"
proof (induction ws arbitrary: a)
  case Nil
  show ?case by simp
next
  case (Cons w ws)
  have "length (foldl newCommon (newCommon a w) ws) \<le> length (newCommon a w)"
    using foldl_newCommon_prefix [of "newCommon a w" ws] by (rule prefix_length_le)
  with Cons.prems have "n \<le> length (newCommon a w)"
    by simp
  then have "newCommon (drop n a) (drop n w) = drop n (newCommon a w)"
    by (rule newCommon_drop)
  with Cons.IH [of "newCommon a w"] Cons.prems show ?case
    by simp
qed

lemma takeWhile_drop:
  "n \<le> length (takeWhile P xs) \<Longrightarrow> takeWhile P (drop n xs) = drop n (takeWhile P xs)"
  by (induction xs arbitrary: n) (auto simp: drop_Cons split: nat.splits if_splits)

lemma TrimSpace_empty_blanks:
  "\<forall>c\<in>set p. c = CHR '' '' \<or> c = CHR 0x09 \<Longrightarrow> TrimSpace_empty (p @ ln) = TrimSpace_empty ln"
  by (induction p) (auto simp: asciiSpace_def)

section \<open>Reading back what the formatter writes\<close>

lemma slice_Suc:
  "i \<le> p \<Longrightarrow> p < length xs \<Longrightarrow> slice xs i (Suc p) = slice xs i p @ [xs ! p]"
  by (simp add: slice_def Suc_diff_le take_Suc_conv_app_nth)

lemma drop_append_nth:
  "drop n xs = ys @ zs \<Longrightarrow> drop (n + length ys) xs = zs"
  by (metis append_eq_conv_conj drop_drop add.commute)

lemma parseQuote2_loop_decodes:
  assumes "drop (pos sc) (s sc) = concat (map enc bs) @ CHR 0x22 # rest"
    and "list_all (decodes enc) bs"
    and "i \<le> pos sc"
  shows "\<exists>sc'. parseQuote2_loop sc i out = (sc', out @ slice (s sc) i (pos sc) @ bs, None)
            \<and> s sc' = s sc \<and> pos sc' = pos sc + length (concat (map enc bs)) + 1"
  using assms
proof (induction bs arbitrary: sc i out)
  case Nil
  then have "pos sc < length (s sc)" "s sc ! pos sc = CHR 0x22"
    using nth_pos_of_drop [of "pos sc" "s sc" "CHR 0x22" rest] by simp_all
  then show ?case
    by (subst parseQuote2_loop.simps) simp
next
  case (Cons b bs)
  from Cons.prems(2) have db: "decodes enc b" and dbs: "list_all (decodes enc) bs"
    by simp_all
  let ?tl = "concat (map enc bs) @ CHR 0x22 # rest"
  from db show ?case
    unfolding decodes_def
  proof (elim disjE conjE exE)
    assume e: "enc b = [b]" and nq: "b \<noteq> CHR 0x22" and nb: "b \<noteq> CHR 0x5C"
    with Cons.prems(1) have lt: "pos sc < length (s sc)" and at: "s sc ! pos sc = b"
      and dr: "drop (pos (advance sc)) (s (advance sc)) = ?tl"
      using nth_pos_of_drop [of "pos sc" "s sc" b ?tl] by simp_all
    from Cons.IH [OF dr dbs, of i out] Cons.prems(3)
    obtain sc' where
      r: "parseQuote2_loop (advance sc) i out
            = (sc', out @ slice (s sc) i (Suc (pos sc)) @ bs, None)"
      and s': "s sc' = s sc" and p': "pos sc' = pos sc + 1 + length (concat (map enc bs)) + 1"
      by auto
    have "parseQuote2_loop sc i out = parseQuote2_loop (advance sc) i out"
      using lt at nq nb by (subst parseQuote2_loop.simps) simp
    with r s' p' e show ?thesis
      using Cons.prems(3) lt at by (simp add: slice_Suc)
  next
    fix x
    assume e: "enc b = [CHR 0x5C, x]" and v: "backslashEscape_value x = [b]"
    with Cons.prems(1) have lt: "pos sc < length (s sc)" and at: "s sc ! pos sc = CHR 0x5C"
      and dr1: "drop (Suc (pos sc)) (s sc) = x # ?tl"
      using nth_pos_of_drop [of "pos sc" "s sc" "CHR 0x5C" "x # ?tl"] by simp_all
    then have lt1: "Suc (pos sc) < length (s sc)" and at1: "s sc ! Suc (pos sc) = x"
      and dr2: "drop (Suc (Suc (pos sc))) (s sc) = ?tl"
      using nth_pos_of_drop [of "Suc (pos sc)" "s sc" x ?tl] by simp_all
    have pe: "parseBackslashEscape sc = (advance (advance sc), [b], None)"
      using lt lt1 at1 v by (simp add: parseBackslashEscape_def Let_def)
    have dr: "drop (pos (advance (advance sc))) (s (advance (advance sc))) = ?tl"
      using dr2 by simp
    from Cons.IH [OF dr dbs, of "pos (advance (advance sc))" "out @ slice (s sc) i (pos sc) @ [b]"]
    obtain sc' where
      r: "parseQuote2_loop (advance (advance sc)) (pos (advance (advance sc)))
             (out @ slice (s sc) i (pos sc) @ [b])
            = (sc', out @ slice (s sc) i (pos sc) @ b # bs, None)"
      and s': "s sc' = s sc" and p': "pos sc' = pos sc + 2 + length (concat (map enc bs)) + 1"
      by auto
    have "parseQuote2_loop sc i out
        = parseQuote2_loop (advance (advance sc)) (pos (advance (advance sc)))
             (out @ slice (s sc) i (pos sc) @ [b])"
      using lt at pe by (subst parseQuote2_loop.simps) simp
    with r s' p' e show ?thesis
      by simp
  qed
qed

lemma decodes_literal: "enc b = [b] \<Longrightarrow> b \<noteq> CHR 0x22 \<Longrightarrow> b \<noteq> CHR 0x5C \<Longrightarrow> decodes enc b"
  by (simp add: decodes_def)

lemma decodes_escape:
  "enc b = [CHR 0x5C, x] \<Longrightarrow> backslashEscape_value x = [b] \<Longrightarrow> decodes enc b"
  unfolding decodes_def by blast

lemma quoteArg_byte_decodes:
  assumes "plain_byte b"
  shows "decodes quoteArg_byte b"
proof -
  consider "b = CHR 0x22" | "b = CHR 0x5C" | "b = CHR ''{''" | "b = CHR ''}''"
    | "b = CHR 0x0A" | "b = CHR 0x0D" | "b = CHR 0x09"
    | "b \<noteq> CHR 0x22" "b \<noteq> CHR 0x5C" "b \<noteq> CHR ''{''" "b \<noteq> CHR ''}''"
      "b \<noteq> CHR 0x0A" "b \<noteq> CHR 0x0D" "b \<noteq> CHR 0x09"
    by blast
  then show ?thesis
  proof cases
    case 1
    show ?thesis
      by (rule decodes_escape [where x = "CHR 0x22"])
         (simp_all add: 1 quoteArg_byte_def backslashEscape_value_def string_of_byte_def)
  next
    case 2
    show ?thesis
      by (rule decodes_escape [where x = "CHR 0x5C"])
         (simp_all add: 2 quoteArg_byte_def backslashEscape_value_def string_of_byte_def)
  next
    case 3
    show ?thesis
      by (rule decodes_escape [where x = "CHR ''{''"])
         (simp_all add: 3 quoteArg_byte_def backslashEscape_value_def string_of_byte_def)
  next
    case 4
    show ?thesis
      by (rule decodes_escape [where x = "CHR ''}''"])
         (simp_all add: 4 quoteArg_byte_def backslashEscape_value_def string_of_byte_def)
  next
    case 5
    show ?thesis
      by (rule decodes_escape [where x = "CHR ''n''"])
         (simp_all add: 5 quoteArg_byte_def backslashEscape_value_def string_of_byte_def)
  next
    case 6
    show ?thesis
      by (rule decodes_escape [where x = "CHR ''r''"])
         (simp_all add: 6 quoteArg_byte_def backslashEscape_value_def string_of_byte_def)
  next
    case 7
    show ?thesis
      by (rule decodes_escape [where x = "CHR ''t''"])
         (simp_all add: 7 quoteArg_byte_def backslashEscape_value_def string_of_byte_def)
  next
    case 8
    with assms have "\<not> (of_char b :: nat) < 32"
      by (simp add: plain_byte_def)
    with 8 have "quoteArg_byte b = [b]"
      by (simp add: quoteArg_byte_def)
    with 8 show ?thesis
      by (simp add: decodes_literal)
  qed
qed


lemma strconv_Quote_byte_decodes:
  assumes "plain_byte b"
  shows "decodes strconv_Quote_byte b"
proof -
  consider "b = CHR 0x22" | "b = CHR 0x5C" | "b = CHR 0x0A" | "b = CHR 0x0D" | "b = CHR 0x09"
    | "b \<noteq> CHR 0x22" "b \<noteq> CHR 0x5C" "b \<noteq> CHR 0x0A" "b \<noteq> CHR 0x0D" "b \<noteq> CHR 0x09"
    by blast
  then show ?thesis
  proof cases
    case 1
    show ?thesis
      by (rule decodes_escape [where x = "CHR 0x22"])
         (simp_all add: 1 strconv_Quote_byte_def backslashEscape_value_def string_of_byte_def)
  next
    case 2
    show ?thesis
      by (rule decodes_escape [where x = "CHR 0x5C"])
         (simp_all add: 2 strconv_Quote_byte_def backslashEscape_value_def string_of_byte_def)
  next
    case 3
    show ?thesis
      by (rule decodes_escape [where x = "CHR ''n''"])
         (simp_all add: 3 strconv_Quote_byte_def backslashEscape_value_def string_of_byte_def)
  next
    case 4
    show ?thesis
      by (rule decodes_escape [where x = "CHR ''r''"])
         (simp_all add: 4 strconv_Quote_byte_def backslashEscape_value_def string_of_byte_def)
  next
    case 5
    show ?thesis
      by (rule decodes_escape [where x = "CHR ''t''"])
         (simp_all add: 5 strconv_Quote_byte_def backslashEscape_value_def string_of_byte_def)
  next
    case 6
    with assms have "32 \<le> (of_char b :: nat) \<and> (of_char b :: nat) < 127"
      by (simp add: plain_byte_def)
    with 6 have "strconv_Quote_byte b = [b]"
      by (simp add: strconv_Quote_byte_def)
    with 6 show ?thesis
      by (simp add: decodes_literal)
  qed
qed


lemma isBarewordString_loop_all:
  "isBarewordString_loop a = list_all (\<lambda>b. isBareword b \<and> b \<noteq> CHR 0x5C) a"
  by (induction a) auto

lemma isBareword_plain:
  "isBareword b \<Longrightarrow> \<not> isSpace b \<and> \<not> isQuote1 b \<and> \<not> isQuote2 b \<and> b \<noteq> CHR 0x0A"
  by (auto simp: isBareword_def split: if_splits)

lemma isBarewordString_run:
  "isBarewordString a \<Longrightarrow>
   list_all (\<lambda>b. \<not> isSpace b \<and> \<not> isQuote1 b \<and> \<not> isQuote2 b
                  \<and> b \<noteq> CHR 0x0A \<and> b \<noteq> CHR 0x5C) a"
  by (auto simp: isBarewordString_def isBarewordString_loop_all list_all_iff
        dest: isBareword_plain split: if_splits)

lemma quoteArg_shape:
  "\<exists>enc. quoteArg a = CHR 0x22 # concat (map enc a) @ [CHR 0x22]
         \<and> (list_all plain_byte a \<longrightarrow> list_all (decodes enc) a)"
proof (cases "list_ex (\<lambda>c. c = CHR ''{'' \<or> c = CHR ''}'') a")
  case True
  then have "quoteArg a = CHR 0x22 # concat (map quoteArg_byte a) @ [CHR 0x22]"
    by (simp add: quoteArg_def)
  moreover have "list_all plain_byte a \<longrightarrow> list_all (decodes quoteArg_byte) a"
    by (auto simp: list_all_iff quoteArg_byte_decodes)
  ultimately show ?thesis
    by blast
next
  case False
  then have "quoteArg a = CHR 0x22 # concat (map strconv_Quote_byte a) @ [CHR 0x22]"
    by (simp add: quoteArg_def strconv_Quote_def)
  moreover have "list_all plain_byte a \<longrightarrow> list_all (decodes strconv_Quote_byte) a"
    by (auto simp: list_all_iff strconv_Quote_byte_decodes)
  ultimately show ?thesis
    by blast
qed

lemma parseBareword_formatted:
  assumes "drop (pos sc) (s sc) = (if isBarewordString a then a else quoteArg a) @ rest"
    and "isBarewordString a \<or> list_all plain_byte a"
    and "rest = [] \<or> hd rest = CHR '' ''"
  shows "\<exists>sc'. parseBareword sc = (sc', a, None) \<and> s sc' = s sc
            \<and> pos sc' = pos sc + length (if isBarewordString a then a else quoteArg a)"
proof (cases "isBarewordString a")
  case True
  with assms(1) have dr: "drop (pos sc) (s sc) = a @ rest"
    by simp
  have tm: "rest = [] \<or> isSpace (hd rest) \<or> hd rest = CHR 0x0A"
    using assms(3) by (auto simp: isSpace_def)
  have "slice (s sc) (pos sc) (pos sc + length a) = a"
    using dr by (simp add: slice_def)
  with parseBareword_loop_run [OF dr isBarewordString_run [OF True] tm, of "pos sc" "[]"] True
  show ?thesis
    by (simp add: parseBareword_def)
next
  case False
  with assms(2) have pl: "list_all plain_byte a"
    by simp
  from quoteArg_shape [of a] pl obtain enc
    where q: "quoteArg a = CHR 0x22 # concat (map enc a) @ [CHR 0x22]"
      and d: "list_all (decodes enc) a"
    by blast
  let ?body = "concat (map enc a)"
  from assms(1) False q have dr0: "drop (pos sc) (s sc) = CHR 0x22 # ?body @ CHR 0x22 # rest"
    by simp
  then have lt: "pos sc < length (s sc)" and at: "s sc ! pos sc = CHR 0x22"
    and dr1: "drop (pos (advance sc)) (s (advance sc)) = ?body @ CHR 0x22 # rest"
    using nth_pos_of_drop [of "pos sc" "s sc" "CHR 0x22" "?body @ CHR 0x22 # rest"] by simp_all
  from parseQuote2_loop_decodes [OF dr1 d, of "pos (advance sc)" "[]"]
  obtain sc' where
    r: "parseQuote2_loop (advance sc) (pos (advance sc)) [] = (sc', a, None)"
    and s': "s sc' = s sc" and p': "pos sc' = pos sc + 1 + length ?body + 1"
    by auto
  then have pq: "parseQuote2 sc = (sc', a, None)"
    by (simp add: parseQuote2_def Let_def)
  have dr': "drop (pos sc') (s sc') = rest"
    using drop_append_nth [of "pos sc" "s sc" "CHR 0x22 # ?body @ [CHR 0x22]" rest] dr0 s' p'
    by (simp add: add.commute add.left_commute)
  have first: "parseBareword_loop sc (pos sc) [] = parseBareword_loop sc' (pos sc') a"
    using lt at pq by (subst parseBareword_loop.simps) (simp add: isSpace_def isQuote1_def isQuote2_def)
  have last: "parseBareword_loop sc' (pos sc') a = (sc', a, None)"
  proof (cases rest)
    case Nil
    with dr' have "length (s sc') \<le> pos sc'"
      by simp
    then show ?thesis
      by (subst parseBareword_loop.simps) simp
  next
    case (Cons r rs)
    with assms(3) have "r = CHR '' ''"
      by simp
    with Cons dr' have "pos sc' < length (s sc')" "s sc' ! pos sc' = CHR '' ''"
      using nth_pos_of_drop [of "pos sc'" "s sc'" r rs] by simp_all
    then show ?thesis
      by (subst parseBareword_loop.simps) (simp add: isSpace_def)
  qed
  from first last s' p' q False show ?thesis
    by (simp add: parseBareword_def)
qed

lemma parseBrace_loop_safe:
  assumes "brace_safe d B"
    and "drop (pos sc) (s sc) = B @ CHR 0x0A # CHR ''}'' # post"
    and "i \<le> pos sc"
  shows "\<exists>sc'. parseBrace_loop sc i out (int d + 1)
           = (sc', dedent (out @ slice (s sc) i (pos sc) @ B @ [CHR 0x0A]), None)"
  using assms
proof (induction B arbitrary: d sc i out rule: length_induct)
  case (1 B)
  note IH = "1.IH" [rule_format]
  show ?case
  proof (cases B)
    case Nil
    with "1.prems" have d0: "d = 0" and dr: "drop (pos sc) (s sc) = CHR 0x0A # CHR ''}'' # post"
      by simp_all
    from dr have lt: "pos sc < length (s sc)" and at: "s sc ! pos sc = CHR 0x0A"
      and dr1: "drop (Suc (pos sc)) (s sc) = CHR ''}'' # post"
      using nth_pos_of_drop [of "pos sc" "s sc" "CHR 0x0A" "CHR ''}'' # post"] by simp_all
    then have lt1: "Suc (pos sc) < length (s sc)" and at1: "s sc ! Suc (pos sc) = CHR ''}''"
      using nth_pos_of_drop [of "Suc (pos sc)" "s sc" "CHR ''}''" post] by simp_all
    have "parseBrace_loop sc i out 1 = parseBrace_loop (advance sc) i out 1"
      using lt at by (subst parseBrace_loop.simps) simp
    also have "\<dots> = (advance (advance sc), dedent (out @ slice (s sc) i (Suc (pos sc))), None)"
      using lt1 at1 by (subst parseBrace_loop.simps) simp
    finally show ?thesis
      using Nil d0 "1.prems"(3) lt at by (simp add: slice_Suc)
  next
    case (Cons c cs)
    with "1.prems"(2) have lt: "pos sc < length (s sc)" and at: "s sc ! pos sc = c"
      and dr1: "drop (Suc (pos sc)) (s sc) = cs @ CHR 0x0A # CHR ''}'' # post"
      using nth_pos_of_drop [of "pos sc" "s sc" c "cs @ CHR 0x0A # CHR ''}'' # post"] by simp_all
    have sl: "slice (s sc) i (Suc (pos sc)) = slice (s sc) i (pos sc) @ [c]"
      using "1.prems"(3) lt at by (simp add: slice_Suc)
    consider (esc) "c = CHR 0x5C" | (opn) "c = CHR ''{''" | (cls) "c = CHR ''}''"
      | (oth) "c \<noteq> CHR 0x5C" "c \<noteq> CHR ''{''" "c \<noteq> CHR ''}''"
      by blast
    then show ?thesis
    proof cases
      case oth
      with Cons "1.prems"(1) have safe: "brace_safe d cs"
        by simp
      have "parseBrace_loop sc i out (int d + 1) = parseBrace_loop (advance sc) i out (int d + 1)"
        using lt at oth by (subst parseBrace_loop.simps) simp
      moreover from IH [of cs d "advance sc" i out] safe dr1 "1.prems"(3) Cons
      obtain sc' where "parseBrace_loop (advance sc) i out (int d + 1)
          = (sc', dedent (out @ slice (s sc) i (Suc (pos sc)) @ cs @ [CHR 0x0A]), None)"
        by auto
      ultimately show ?thesis
        using Cons sl by simp
    next
      case opn
      with Cons "1.prems"(1) have safe: "brace_safe (Suc d) cs"
        by simp
      have "parseBrace_loop sc i out (int d + 1)
          = parseBrace_loop (advance sc) i out (int (Suc d) + 1)"
        using lt at opn by (subst parseBrace_loop.simps) simp
      moreover from IH [of cs "Suc d" "advance sc" i out] safe dr1 "1.prems"(3) Cons
      obtain sc' where "parseBrace_loop (advance sc) i out (int (Suc d) + 1)
          = (sc', dedent (out @ slice (s sc) i (Suc (pos sc)) @ cs @ [CHR 0x0A]), None)"
        by auto
      ultimately show ?thesis
        using Cons sl by simp
    next
      case cls
      with Cons "1.prems"(1) have d: "d \<noteq> 0" and safe: "brace_safe (d - 1) cs"
        by simp_all
      have "parseBrace_loop sc i out (int d + 1)
          = parseBrace_loop (advance sc) i out (int (d - 1) + 1)"
        using lt at cls d by (subst parseBrace_loop.simps) (simp add: of_nat_diff)
      moreover from IH [of cs "d - 1" "advance sc" i out] safe dr1 "1.prems"(3) Cons
      obtain sc' where "parseBrace_loop (advance sc) i out (int (d - 1) + 1)
          = (sc', dedent (out @ slice (s sc) i (Suc (pos sc)) @ cs @ [CHR 0x0A]), None)"
        by auto
      ultimately show ?thesis
        using Cons sl by simp
    next
      case esc
      show ?thesis
      proof (cases cs)
        case Nil
        with Cons esc "1.prems"(1) have d0: "d = 0"
          by simp
        from dr1 Nil have lt1: "Suc (pos sc) < length (s sc)"
          and at1: "s sc ! Suc (pos sc) = CHR 0x0A"
          and dr2: "drop (Suc (Suc (pos sc))) (s sc) = CHR ''}'' # post"
          using nth_pos_of_drop [of "Suc (pos sc)" "s sc" "CHR 0x0A" "CHR ''}'' # post"]
          by simp_all
        then have lt2: "Suc (Suc (pos sc)) < length (s sc)"
          and at2: "s sc ! Suc (Suc (pos sc)) = CHR ''}''"
          using nth_pos_of_drop [of "Suc (Suc (pos sc))" "s sc" "CHR ''}''" post] by simp_all
        have pe: "parseBraceEscape sc = (advance (advance sc), [CHR 0x5C, CHR 0x0A], None)"
          using lt lt1 at1
          by (simp add: parseBraceEscape_def Let_def braceEscape_value_def string_of_byte_def)
        have "parseBrace_loop sc i out 1
            = parseBrace_loop (advance (advance sc)) (pos (advance (advance sc)))
                (out @ slice (s sc) i (pos sc) @ [CHR 0x5C, CHR 0x0A]) 1"
          using lt at esc pe by (subst parseBrace_loop.simps) simp
        also have "\<dots> = (advance (advance (advance sc)),
            dedent (out @ slice (s sc) i (pos sc) @ [CHR 0x5C, CHR 0x0A]), None)"
          using lt2 at2 by (subst parseBrace_loop.simps) simp
        finally show ?thesis
          using Cons Nil esc d0 by simp
      next
        case (Cons e es)
        note cs = Cons
        with \<open>B = c # cs\<close> esc "1.prems"(1)
        have e: "e \<noteq> CHR ''{''" "e \<noteq> CHR ''}''" "e \<noteq> CHR 0x5C" "(of_char e :: nat) < 128"
          and safe: "brace_safe d es"
          by simp_all
        from dr1 cs have lt1: "Suc (pos sc) < length (s sc)"
          and at1: "s sc ! Suc (pos sc) = e"
          and dr2: "drop (Suc (Suc (pos sc))) (s sc) = es @ CHR 0x0A # CHR ''}'' # post"
          using nth_pos_of_drop [of "Suc (pos sc)" "s sc" e "es @ CHR 0x0A # CHR ''}'' # post"]
          by simp_all
        have pe: "parseBraceEscape sc = (advance (advance sc), [CHR 0x5C, e], None)"
          using lt lt1 at1 e
          by (simp add: parseBraceEscape_def Let_def braceEscape_value_def string_of_byte_def)
        have "parseBrace_loop sc i out (int d + 1)
            = parseBrace_loop (advance (advance sc)) (pos (advance (advance sc)))
                (out @ slice (s sc) i (pos sc) @ [CHR 0x5C, e]) (int d + 1)"
          using lt at esc pe by (subst parseBrace_loop.simps) simp
        moreover from IH [of es d "advance (advance sc)" "pos (advance (advance sc))"
            "out @ slice (s sc) i (pos sc) @ [CHR 0x5C, e]"] safe dr2 cs \<open>B = c # cs\<close>
        obtain sc' where "parseBrace_loop (advance (advance sc)) (pos (advance (advance sc)))
                (out @ slice (s sc) i (pos sc) @ [CHR 0x5C, e]) (int d + 1)
          = (sc', dedent (out @ slice (s sc) i (pos sc) @ CHR 0x5C # e # es @ [CHR 0x0A]), None)"
          by auto
        ultimately show ?thesis
          using \<open>B = c # cs\<close> cs esc by simp
      qed
    qed
  qed
qed

lemma Join_Cons: "xs \<noteq> [] \<Longrightarrow> Join (x # xs) sep = x @ sep @ Join xs sep"
  by (cases xs) simp_all

lemma formatted_first:
  assumes "isBarewordString a \<or> list_all plain_byte a"
  shows "(if isBarewordString a then a else quoteArg a) \<noteq> []
     \<and> \<not> isSpace (hd (if isBarewordString a then a else quoteArg a))
     \<and> (isBareword (hd (if isBarewordString a then a else quoteArg a))
        \<or> isQuote2 (hd (if isBarewordString a then a else quoteArg a)))"
proof (cases "isBarewordString a")
  case True
  then obtain b bs where a: "a = b # bs"
    by (cases a) (simp_all add: isBarewordString_def)
  with True have "isBareword b"
    by (simp add: isBarewordString_def split: if_splits)
  with True a show ?thesis
    using isBareword_plain [of b] by simp
next
  case False
  from quoteArg_shape [of a] obtain enc
    where "quoteArg a = CHR 0x22 # concat (map enc a) @ [CHR 0x22]"
    by blast
  with False show ?thesis
    by (simp add: isSpace_def isQuote2_def)
qed

lemma Next_loop_args:
  assumes "A \<noteq> []"
    and "list_all (\<lambda>a. isBarewordString a \<or> list_all plain_byte a) A"
    and "drop (pos sc) (s sc)
       = Join (map (\<lambda>arg. if isBarewordString arg then arg else quoteArg arg) A) '' '' @ after"
    and "after = [] \<or> hd after = CHR '' ''"
  shows "\<exists>sc'. Next_loop sc acc = Next_loop sc' (acc @ A) \<and> drop (pos sc') (s sc') = after"
  using assms
proof (induction A arbitrary: sc acc rule: list_nonempty_induct)
  case (single a)
  let ?f = "if isBarewordString a then a else quoteArg a"
  from single.prems have ok: "isBarewordString a \<or> list_all plain_byte a"
    and dr: "drop (pos sc) (s sc) = ?f @ after"
    by simp_all
  from parseBareword_formatted [OF dr ok single.prems(3)]
  obtain sc' where pb: "parseBareword sc = (sc', a, None)" and s': "s sc' = s sc"
    and p': "pos sc' = pos sc + length ?f"
    by blast
  from formatted_first [OF ok] obtain b bs where f: "?f = b # bs"
    and b: "\<not> isSpace b" "isBareword b \<or> isQuote2 b"
    by (cases ?f) auto
  with dr have lt: "pos sc < length (s sc)" and at: "s sc ! pos sc = b"
    using nth_pos_of_drop [of "pos sc" "s sc" b "bs @ after"] by simp_all
  have "Next_loop sc acc = Next_loop sc' (acc @ [a])"
    using lt at b pb by (subst Next_loop.simps) auto
  moreover have "drop (pos sc') (s sc') = after"
    using drop_append_nth [OF dr] s' p' by simp
  ultimately show ?case
    by blast
next
  case (cons a A)
  let ?f = "if isBarewordString a then a else quoteArg a"
  let ?rest = "Join (map (\<lambda>arg. if isBarewordString arg then arg else quoteArg arg) A) '' '' @ after"
  from cons.prems have ok: "isBarewordString a \<or> list_all plain_byte a"
    and oks: "list_all (\<lambda>a. isBarewordString a \<or> list_all plain_byte a) A"
    by simp_all
  from cons.prems(2) cons.hyps have dr: "drop (pos sc) (s sc) = ?f @ CHR '' '' # ?rest"
    by (simp add: Join_Cons)
  from parseBareword_formatted [OF dr ok]
  obtain sc1 where pb: "parseBareword sc = (sc1, a, None)" and s1: "s sc1 = s sc"
    and p1: "pos sc1 = pos sc + length ?f"
    by auto
  from formatted_first [OF ok] obtain b bs where f: "?f = b # bs"
    and b: "\<not> isSpace b" "isBareword b \<or> isQuote2 b"
    by (cases ?f) auto
  with dr have lt: "pos sc < length (s sc)" and at: "s sc ! pos sc = b"
    using nth_pos_of_drop [of "pos sc" "s sc" b "bs @ CHR '' '' # ?rest"] by simp_all
  have step1: "Next_loop sc acc = Next_loop sc1 (acc @ [a])"
    using lt at b pb by (subst Next_loop.simps) auto
  have dr1: "drop (pos sc1) (s sc1) = CHR '' '' # ?rest"
    using drop_append_nth [OF dr] s1 p1 by simp
  then have lt1: "pos sc1 < length (s sc1)" and at1: "s sc1 ! pos sc1 = CHR '' ''"
    and dr2: "drop (pos (advance sc1)) (s (advance sc1)) = ?rest"
    using nth_pos_of_drop [of "pos sc1" "s sc1" "CHR '' ''" ?rest] by simp_all
  have step2: "Next_loop sc1 (acc @ [a]) = Next_loop (advance sc1) (acc @ [a])"
    using lt1 at1 by (subst Next_loop.simps) (simp add: isSpace_def)
  from cons.IH [OF oks dr2 cons.prems(3), of "acc @ [a]"]
  obtain sc' where "Next_loop (advance sc1) (acc @ [a]) = Next_loop sc' (acc @ a # A)"
    and "drop (pos sc') (s sc') = after"
    by auto
  with step1 step2 show ?case
    by auto
qed

lemma Next_loop_at_end:
  "length (s sc) \<le> pos sc \<Longrightarrow>
   returned (Next_loop sc acc) = Some (acc, [], if acc = [] then Some EOF else None)"
  by (subst Next_loop.simps) (simp add: returned_def)

lemma Next_loop_at_body:
  assumes "drop (pos sc) (s sc) = '' {'' @ CHR 0x0A # B @ [CHR 0x0A] @ ''}''"
    and "brace_safe 0 B"
  shows "returned (Next_loop sc acc) = Some (acc, dedent (CHR 0x0A # B @ [CHR 0x0A]), None)"
proof -
  let ?r0 = "CHR ''{'' # CHR 0x0A # B @ CHR 0x0A # CHR ''}'' # []"
  from assms(1) have lt: "pos sc < length (s sc)" and at: "s sc ! pos sc = CHR '' ''"
    and dr1: "drop (Suc (pos sc)) (s sc) = ?r0"
    using nth_pos_of_drop [of "pos sc" "s sc" "CHR '' ''" ?r0] by simp_all
  then have lt1: "Suc (pos sc) < length (s sc)" and at1: "s sc ! Suc (pos sc) = CHR ''{''"
    and dr2: "drop (Suc (Suc (pos sc))) (s sc) = CHR 0x0A # B @ CHR 0x0A # CHR ''}'' # []"
    using nth_pos_of_drop [of "Suc (pos sc)" "s sc" "CHR ''{''"
        "CHR 0x0A # B @ CHR 0x0A # CHR ''}'' # []"] by simp_all
  then have lt2: "Suc (Suc (pos sc)) < length (s sc)"
    and at2: "s sc ! Suc (Suc (pos sc)) = CHR 0x0A"
    and dr3: "drop (Suc (Suc (Suc (pos sc)))) (s sc) = B @ CHR 0x0A # CHR ''}'' # []"
    using nth_pos_of_drop [of "Suc (Suc (pos sc))" "s sc" "CHR 0x0A"
        "B @ CHR 0x0A # CHR ''}'' # []"] by simp_all
  let ?sc2 = "advance (advance sc)"
  let ?sc3 = "advance ?sc2"
  have dr3': "drop (pos ?sc3) (s ?sc3) = B @ CHR 0x0A # CHR ''}'' # []"
    using dr3 by simp
  from parseBrace_loop_safe [OF assms(2) dr3', of "pos ?sc2" "[]"]
  obtain sc' where "parseBrace_loop ?sc3 (pos ?sc2) [] 1
      = (sc', dedent (slice (s sc) (Suc (Suc (pos sc))) (Suc (Suc (Suc (pos sc)))) @ B @ [CHR 0x0A]), None)"
    by auto
  moreover have "slice (s sc) (Suc (Suc (pos sc))) (Suc (Suc (Suc (pos sc)))) = [CHR 0x0A]"
    using slice_Suc [of "Suc (Suc (pos sc))" "Suc (Suc (pos sc))" "s sc"] lt2 at2 by simp
  moreover have "parseBrace_loop ?sc2 (pos ?sc2) [] 1 = parseBrace_loop ?sc3 (pos ?sc2) [] 1"
    using lt2 at2 by (subst parseBrace_loop.simps) simp
  ultimately have pb: "parseBrace (advance sc) = (sc', dedent (CHR 0x0A # B @ [CHR 0x0A]), None)"
    by (simp add: parseBrace_def Let_def)
  have "Next_loop sc acc = Next_loop (advance sc) acc"
    using lt at by (subst Next_loop.simps) (simp add: isSpace_def)
  also have "\<dots> = Some (sc', acc, dedent (CHR 0x0A # B @ [CHR 0x0A]), None)"
    using lt1 at1 pb
    by (subst Next_loop.simps)
       (simp add: isSpace_def isBareword_def isQuote1_def isQuote2_def isBackQuote_def
          isLeftBrace_def)
  finally show ?thesis
    by (simp add: returned_def)
qed

section \<open>Brace blocks and error positions on concrete inputs\<close>

text \<open>
  Claim C5. Parsing \<open>cmd { a { b } c }\<close> yields the arguments \<open>[cmd]\<close> and the body
  \<open> a { b } c \<close>: the inner braces change the depth and stay in the body. Parsing
  \<open>cmd { x \{ y \} z }\<close> yields the body \<open> x { y } z \<close>. The escaped braces do not
  count for the depth: an escaped closing brace alone does not close the block
  (\<open>cmd { x \} z }\<close> has the body \<open> x } z \<close>), an escaped opening brace alone asks
  for no closing brace (\<open>cmd { x \{ z }\<close> has the body \<open> x { z \<close>), and in general the
  brace parser goes on after a backslash and a brace with the brace in its output and
  the depth it had.
\<close>

theorem brace_depth_tracking:
  "returned (Next (NewScanner ''cmd { a { b } c }'')) = Some ([''cmd''], '' a { b } c '', None)
   \<and> returned (Next (NewScanner (''cmd { x '' @ [CHR 0x5C] @ ''{ y '' @ [CHR 0x5C] @ ''} z }'')))
       = Some ([''cmd''], '' x { y } z '', None)
   \<and> returned (Next (NewScanner (''cmd { x '' @ [CHR 0x5C] @ ''} z }'')))
       = Some ([''cmd''], '' x } z '', None)
   \<and> returned (Next (NewScanner (''cmd { x '' @ [CHR 0x5C] @ ''{ z }'')))
       = Some ([''cmd''], '' x { z '', None)
   \<and> returned (Next (NewScanner (''cmd { outer { inner '' @ [CHR 0x5C] @ ''} still inner } }'')))
       = Some ([''cmd''], '' outer { inner } still inner } '', None)
   \<and> (pos sc + 1 < length (s sc) \<and> s sc ! pos sc = CHR 0x5C
        \<and> (s sc ! (pos sc + 1) = CHR ''{'' \<or> s sc ! (pos sc + 1) = CHR ''}'')
      \<longrightarrow> parseBrace_loop sc i out stack
          = parseBrace_loop (advance (advance sc)) (pos sc + 2)
              (out @ slice (s sc) i (pos sc) @ [s sc ! (pos sc + 1)]) stack)"
proof -
  have closed: "returned (Next (NewScanner ''cmd { a { b } c }'')) = Some ([''cmd''], '' a { b } c '', None)
   \<and> returned (Next (NewScanner (''cmd { x '' @ [CHR 0x5C] @ ''{ y '' @ [CHR 0x5C] @ ''} z }'')))
       = Some ([''cmd''], '' x { y } z '', None)
   \<and> returned (Next (NewScanner (''cmd { x '' @ [CHR 0x5C] @ ''} z }'')))
       = Some ([''cmd''], '' x } z '', None)
   \<and> returned (Next (NewScanner (''cmd { x '' @ [CHR 0x5C] @ ''{ z }'')))
       = Some ([''cmd''], '' x { z '', None)
   \<and> returned (Next (NewScanner (''cmd { outer { inner '' @ [CHR 0x5C] @ ''} still inner } }'')))
       = Some ([''cmd''], '' outer { inner } still inner } '', None)"
    by code_simp
  have step: "parseBrace_loop sc i out stack
          = parseBrace_loop (advance (advance sc)) (pos sc + 2)
              (out @ slice (s sc) i (pos sc) @ [s sc ! (pos sc + 1)]) stack"
    if a: "pos sc + 1 < length (s sc) \<and> s sc ! pos sc = CHR 0x5C
        \<and> (s sc ! (pos sc + 1) = CHR ''{'' \<or> s sc ! (pos sc + 1) = CHR ''}'')"
  proof -
    from a have "parseBraceEscape sc = (advance (advance sc), [s sc ! (pos sc + 1)], None)"
      by (auto simp: parseBraceEscape_def Let_def braceEscape_value_def)
    with a show ?thesis
      by (subst parseBrace_loop.simps) simp
  qed
  from closed step show ?thesis
    by blast
qed

theorem brace_depth_tracking_witness:
  "parseBrace_loop \<lparr>s = ''{'' @ [CHR 0x5C] @ ''}}'', pos = 1, line = 1, column = 2, baseOffset = 0\<rparr>
       1 [] 1
     = parseBrace_loop \<lparr>s = ''{'' @ [CHR 0x5C] @ ''}}'', pos = 3, line = 1, column = 4, baseOffset = 0\<rparr>
       3 ''}'' 1
   \<and> parseBrace_loop \<lparr>s = ''{'' @ [CHR 0x5C] @ ''}}'', pos = 1, line = 1, column = 2, baseOffset = 0\<rparr>
       1 [] 1
     = (\<lparr>s = ''{'' @ [CHR 0x5C] @ ''}}'', pos = 4, line = 1, column = 5, baseOffset = 0\<rparr>, ''}'', None)"
proof -
  let ?sc = "\<lparr>s = ''{'' @ [CHR 0x5C] @ ''}}'', pos = 1, line = 1, column = 2, baseOffset = 0\<rparr>"
  let ?sc' = "\<lparr>s = ''{'' @ [CHR 0x5C] @ ''}}'', pos = 3, line = 1, column = 4, baseOffset = 0\<rparr>"
  have a: "pos ?sc + 1 < length (s ?sc) \<and> s ?sc ! pos ?sc = CHR 0x5C
        \<and> (s ?sc ! (pos ?sc + 1) = CHR ''{'' \<or> s ?sc ! (pos ?sc + 1) = CHR ''}'')"
    by simp
  have adv: "advance (advance ?sc) = ?sc'"
    by (simp add: advance_def)
  have after: "parseBrace_loop ?sc' 3 ''}'' 1
      = (\<lparr>s = ''{'' @ [CHR 0x5C] @ ''}}'', pos = 4, line = 1, column = 5, baseOffset = 0\<rparr>, ''}'', None)"
    by code_simp
  from brace_depth_tracking [of ?sc 1 "[]" 1] a
  have "parseBrace_loop ?sc 1 [] 1
      = parseBrace_loop (advance (advance ?sc)) (pos ?sc + 2)
          ([] @ slice (s ?sc) 1 (pos ?sc) @ [s ?sc ! (pos ?sc + 1)]) 1"
    by blast
  moreover have "[] @ slice (s ?sc) 1 (pos ?sc) @ [s ?sc ! (pos ?sc + 1)] = ''}''"
    and "pos ?sc + 2 = 3"
    by (simp_all add: slice_def)
  ultimately have "parseBrace_loop ?sc 1 [] 1 = parseBrace_loop ?sc' 3 ''}'' 1"
    by (simp only: adv)
  with after show ?thesis
    by simp
qed

text \<open>
  Claim C7. The nine bytes \<open>'unclosed\<close> fail with the error of the single quote that
  is not closed, at line 1, column 10, offset 9.
\<close>

theorem unclosed_single_quote_position:
  "length (CHR 0x27 # ''unclosed'') = 9
   \<and> returned (Next (NewScanner (CHR 0x27 # ''unclosed'')))
       = Some ([], [], Some (ScanErr \<lparr>Pos = \<lparr>Line = 1, Column = 10, Offset = 9\<rparr>,
                                      Msg = ''got EOF in single quote''\<rparr>))"
  by code_simp

section \<open>Child scanners\<close>

text \<open>
  Claim C8. A scanner made by \<open>NewFromScanner\<close> from any parent and any bytes starts
  at column 1, on the parent's current line, at the parent's current offset; that
  offset is the base of every position the child reports, so after \<open>n\<close> bytes the
  child is at the parent's offset plus \<open>n\<close>.
\<close>

theorem child_scanner_position:
  "currentPos (NewFromScanner parent inp)
     = \<lparr>Line = line parent, Column = 1, Offset = baseOffset parent + int (pos parent)\<rparr>
   \<and> Line (currentPos (NewFromScanner parent inp)) = Line (currentPos parent)
   \<and> Offset (currentPos (NewFromScanner parent inp)) = Offset (currentPos parent)
   \<and> Offset (currentPos ((advance ^^ n) (NewFromScanner parent inp)))
       = Offset (currentPos parent) + int n"
  by (simp add: currentPos_def NewFromScanner_def Let_def funpow_advance_pos
        funpow_advance_baseOffset)

section \<open>The iterator: errors, end of input, termination\<close>

text \<open>
  Claim C9. When a sub-parser fails in an iteration of \<open>Next\<close>'s loop, \<open>Next\<close> returns
  the error with the arguments collected so far (the loop's \<open>args\<close>), whichever of
  the three sub-parsers it is: the bareword parser, the back quote parser or the brace
  parser (which also hands over what it had of the body).
\<close>

theorem Next_error_keeps_args:
  assumes "pos sc < length (s sc)"
  shows "((isBareword (s sc ! pos sc) \<or> isQuote1 (s sc ! pos sc) \<or> isQuote2 (s sc ! pos sc)
            \<or> s sc ! pos sc = CHR 0x5C)
          \<and> parseBareword sc = (sc', arg, Some e)
          \<longrightarrow> Next_loop sc args = Some (sc', args, [], Some (ScanErr e)))
       \<and> (isBackQuote (s sc ! pos sc) \<and> parseBackQuote sc = (sc', arg, Some e)
          \<longrightarrow> Next_loop sc args = Some (sc', args, [], Some (ScanErr e)))
       \<and> (isLeftBrace (s sc ! pos sc) \<and> parseBrace sc = (sc', body, Some e)
          \<longrightarrow> Next_loop sc args = Some (sc', args, body, Some (ScanErr e)))"
proof (intro conjI impI)
  assume a: "(isBareword (s sc ! pos sc) \<or> isQuote1 (s sc ! pos sc) \<or> isQuote2 (s sc ! pos sc)
            \<or> s sc ! pos sc = CHR 0x5C) \<and> parseBareword sc = (sc', arg, Some e)"
  then have "\<not> isSpace (s sc ! pos sc)"
    by (auto simp: isSpace_def isBareword_def isQuote1_def isQuote2_def split: if_splits)
  with assms a show "Next_loop sc args = Some (sc', args, [], Some (ScanErr e))"
    by (subst Next_loop.simps) simp
next
  assume a: "isBackQuote (s sc ! pos sc) \<and> parseBackQuote sc = (sc', arg, Some e)"
  then have "\<not> isSpace (s sc ! pos sc)"
    and "\<not> (isBareword (s sc ! pos sc) \<or> isQuote1 (s sc ! pos sc)
      \<or> isQuote2 (s sc ! pos sc) \<or> s sc ! pos sc = CHR 0x5C)"
    by (simp_all add: isSpace_def isBackQuote_def isBareword_def isQuote1_def isQuote2_def)
  with assms a show "Next_loop sc args = Some (sc', args, [], Some (ScanErr e))"
    by (subst Next_loop.simps) simp
next
  assume a: "isLeftBrace (s sc ! pos sc) \<and> parseBrace sc = (sc', body, Some e)"
  then have "\<not> isSpace (s sc ! pos sc)"
    and "\<not> (isBareword (s sc ! pos sc) \<or> isQuote1 (s sc ! pos sc)
      \<or> isQuote2 (s sc ! pos sc) \<or> s sc ! pos sc = CHR 0x5C)"
    and "\<not> isBackQuote (s sc ! pos sc)"
    by (simp_all add: isSpace_def isLeftBrace_def isBackQuote_def isBareword_def
          isQuote1_def isQuote2_def)
  with assms a show "Next_loop sc args = Some (sc', args, body, Some (ScanErr e))"
    by (subst Next_loop.simps) simp
qed

theorem Next_error_keeps_args_witness:
  "pos \<lparr>s = ''a b '' @ [CHR 0x27] @ ''c'', pos = 4, line = 1, column = 5, baseOffset = 0\<rparr>
     < length (s \<lparr>s = ''a b '' @ [CHR 0x27] @ ''c'', pos = 4, line = 1, column = 5, baseOffset = 0\<rparr>)
   \<and> parseBareword \<lparr>s = ''a b '' @ [CHR 0x27] @ ''c'', pos = 4, line = 1, column = 5, baseOffset = 0\<rparr>
       = (\<lparr>s = ''a b '' @ [CHR 0x27] @ ''c'', pos = 6, line = 1, column = 7, baseOffset = 0\<rparr>, [],
          Some \<lparr>Pos = \<lparr>Line = 1, Column = 7, Offset = 6\<rparr>, Msg = ''got EOF in single quote''\<rparr>)
   \<and> Next_loop \<lparr>s = ''a b '' @ [CHR 0x27] @ ''c'', pos = 4, line = 1, column = 5, baseOffset = 0\<rparr>
         [''a'', ''b'']
       = Some (\<lparr>s = ''a b '' @ [CHR 0x27] @ ''c'', pos = 6, line = 1, column = 7, baseOffset = 0\<rparr>,
               [''a'', ''b''], [],
               Some (ScanErr \<lparr>Pos = \<lparr>Line = 1, Column = 7, Offset = 6\<rparr>,
                              Msg = ''got EOF in single quote''\<rparr>))
   \<and> returned (Next (NewScanner (''a b '' @ [CHR 0x27] @ ''c'')))
       = Some ([''a'', ''b''], [],
               Some (ScanErr \<lparr>Pos = \<lparr>Line = 1, Column = 7, Offset = 6\<rparr>,
                              Msg = ''got EOF in single quote''\<rparr>))"
proof -
  let ?sc = "\<lparr>s = ''a b '' @ [CHR 0x27] @ ''c'', pos = 4, line = 1, column = 5, baseOffset = 0\<rparr>"
  let ?sc' = "\<lparr>s = ''a b '' @ [CHR 0x27] @ ''c'', pos = 6, line = 1, column = 7, baseOffset = 0\<rparr>"
  let ?e = "\<lparr>Pos = \<lparr>Line = 1, Column = 7, Offset = 6\<rparr>, Msg = ''got EOF in single quote''\<rparr>"
  have lt: "pos ?sc < length (s ?sc)"
    by simp
  have q: "isQuote1 (s ?sc ! pos ?sc)"
    by (simp add: isQuote1_def)
  have pb: "parseBareword ?sc = (?sc', [], Some ?e)"
    by code_simp
  from Next_error_keeps_args [OF lt, of ?sc' "[]" ?e "[''a'', ''b'']"] q pb
  have "Next_loop ?sc [''a'', ''b''] = Some (?sc', [''a'', ''b''], [], Some (ScanErr ?e))"
    by blast
  moreover have "returned (Next (NewScanner (''a b '' @ [CHR 0x27] @ ''c'')))
       = Some ([''a'', ''b''], [], Some (ScanErr ?e))"
    by code_simp
  ultimately show ?thesis
    using lt pb by blast
qed

text \<open>
  Claim C10. Once the cursor is at the end of the buffer, \<open>Next\<close> returns \<open>io.EOF\<close>
  with no arguments and no body and leaves the scanner as it was; so does every later
  call.
\<close>

theorem end_of_input_stable:
  "length (s sc) \<le> pos sc \<Longrightarrow> Next sc = Some (sc, [], [], Some EOF)"
  unfolding Next_def by (subst Next_loop.simps) simp

theorem end_of_input_stable_witness:
  "length (s \<lparr>s = ''a'', pos = 1, line = 1, column = 2, baseOffset = 0\<rparr>)
     \<le> pos \<lparr>s = ''a'', pos = 1, line = 1, column = 2, baseOffset = 0\<rparr>
   \<and> Next \<lparr>s = ''a'', pos = 1, line = 1, column = 2, baseOffset = 0\<rparr>
       = Some (\<lparr>s = ''a'', pos = 1, line = 1, column = 2, baseOffset = 0\<rparr>, [], [], Some EOF)"
  using end_of_input_stable [of "\<lparr>s = ''a'', pos = 1, line = 1, column = 2, baseOffset = 0\<rparr>"]
  by simp

text \<open>
  Claim C3. The seven classes do not cover every byte, and \<open>Next\<close> does not return on
  every buffer: a carriage return is in none of the classes, no case of the
  \<open>switch\<close> takes it, the cursor stays where it is and the loop runs for ever.
\<close>

theorem Next_carriage_return_diverges:
  "Next (NewScanner [CHR 0x0D]) = None
   \<and> \<not> isSpace (CHR 0x0D) \<and> \<not> isQuote1 (CHR 0x0D) \<and> \<not> isQuote2 (CHR 0x0D)
   \<and> \<not> isBackQuote (CHR 0x0D) \<and> \<not> isLeftBrace (CHR 0x0D) \<and> \<not> isNewLine (CHR 0x0D)
   \<and> \<not> isBareword (CHR 0x0D)"
proof -
  let ?sc = "NewScanner [CHR 0x0D]"
  have "sc \<noteq> ?sc" if run: "Next_loop sc args = Some y" for sc args y
  proof (rule Next_loop.raw_induct [where P = "\<lambda>sc args y. sc \<noteq> ?sc", OF _ run])
    fix loop :: "Scanner \<Rightarrow> string list \<Rightarrow> command option" and sc args y
    assume IH: "\<And>sc args y. loop sc args = Some y \<Longrightarrow> sc \<noteq> ?sc"
      and step: "(if pos sc < length (s sc)
      then if isSpace (s sc ! pos sc) then loop (advance sc) args
           else if isBareword (s sc ! pos sc) \<or>
                   isQuote1 (s sc ! pos sc) \<or>
                   isQuote2 (s sc ! pos sc) \<or> s sc ! pos sc = CHR 0x5C
                then case parseBareword sc of
                     (sc', arg, None) \<Rightarrow> loop sc' (args @ [arg])
                     | (sc', arg, Some e) \<Rightarrow>
                         Some (sc', args, [], Some (ScanErr e))
                else if isBackQuote (s sc ! pos sc)
                     then case parseBackQuote sc of
                          (sc', arg, None) \<Rightarrow> loop sc' (args @ [arg])
                          | (sc', arg, Some e) \<Rightarrow>
                              Some (sc', args, [], Some (ScanErr e))
                     else if isLeftBrace (s sc ! pos sc)
                          then case parseBrace sc of
                               (sc', body, e) \<Rightarrow>
                                 Some
                                  (sc', args, body, map_option ScanErr e)
                          else if isNewLine (s sc ! pos sc)
                               then if 0 < length args
                                    then Some (advance sc, args, [], None)
                                    else loop (advance sc) args
                               else loop sc args
      else if length args = 0 then Some (sc, [], [], Some EOF)
           else Some (sc, args, [], None)) = Some y"
    show "sc \<noteq> ?sc"
    proof
      assume eq: "sc = ?sc"
      with step have "loop ?sc args = Some y"
        by (simp add: NewScanner_def isSpace_def isBareword_def isQuote1_def isQuote2_def
              isBackQuote_def isLeftBrace_def isNewLine_def)
      from IH [OF this] show False by simp
    qed
  qed
  note never = this
  have "\<forall>y. Next_loop ?sc [] \<noteq> Some y"
  proof (intro allI notI)
    fix y
    assume "Next_loop ?sc [] = Some y"
    from never [OF this] show False
      by simp
  qed
  then have "Next ?sc = None"
    by (simp only: not_Some_eq Next_def)
  then show ?thesis
    by (simp add: isSpace_def isBareword_def isQuote1_def isQuote2_def
          isBackQuote_def isLeftBrace_def isNewLine_def)
qed

text \<open>
  That is the only way for \<open>Next\<close> not to return: on a buffer without a control
  byte other than tab and newline, every iteration of the loop returns or moves the
  cursor forward, and \<open>Next\<close> returns, from any state of the scanner and with any
  arguments collected.
\<close>

lemma Next_loop_returns:
  assumes "list_all (\<lambda>b. \<not> ((of_char b :: nat) < 32 \<and> b \<noteq> CHR 0x09 \<and> b \<noteq> CHR 0x0A)) (s sc)"
  shows "\<exists>y. Next_loop sc args = Some y"
  using assms
proof (induction "length (s sc) - pos sc" arbitrary: sc args rule: less_induct)
  case less
  let ?b = "s sc ! pos sc"
  show ?case
  proof (cases "pos sc < length (s sc)")
    case False
    then show ?thesis
      by (subst Next_loop.simps) simp
  next
    case lt: True
    then have "?b \<in> set (s sc)"
      by simp
    with less.prems have cl: "\<not> ((of_char ?b :: nat) < 32 \<and> ?b \<noteq> CHR 0x09 \<and> ?b \<noteq> CHR 0x0A)"
      by (simp add: list_all_iff)
    have adv: "\<exists>y. Next_loop (advance sc) acc = Some y" for acc
      using lt less.prems by (intro less.hyps) simp_all
    consider (sp) "isSpace ?b"
      | (bw) "\<not> isSpace ?b" "isBareword ?b \<or> isQuote1 ?b \<or> isQuote2 ?b \<or> ?b = CHR 0x5C"
      | (bq) "\<not> isSpace ?b" "\<not> (isBareword ?b \<or> isQuote1 ?b \<or> isQuote2 ?b \<or> ?b = CHR 0x5C)"
          "isBackQuote ?b"
      | (lb) "\<not> isSpace ?b" "\<not> (isBareword ?b \<or> isQuote1 ?b \<or> isQuote2 ?b \<or> ?b = CHR 0x5C)"
          "\<not> isBackQuote ?b" "isLeftBrace ?b"
      | (nl) "\<not> isSpace ?b" "\<not> (isBareword ?b \<or> isQuote1 ?b \<or> isQuote2 ?b \<or> ?b = CHR 0x5C)"
          "\<not> isBackQuote ?b" "\<not> isLeftBrace ?b" "isNewLine ?b"
      | (no) "\<not> isSpace ?b" "\<not> isBareword ?b" "\<not> isQuote1 ?b" "\<not> isQuote2 ?b"
          "\<not> isBackQuote ?b" "\<not> isLeftBrace ?b" "\<not> isNewLine ?b"
      by blast
    then show ?thesis
    proof cases
      case sp
      with lt have "Next_loop sc args = Next_loop (advance sc) args"
        by (subst Next_loop.simps) simp
      with adv show ?thesis
        by simp
    next
      case bw
      obtain sc1 arg e where p: "parseBareword sc = (sc1, arg, e)"
        by (cases "parseBareword sc") auto
      show ?thesis
      proof (cases e)
        case (Some a)
        with lt bw p show ?thesis
          by (subst Next_loop.simps) simp
      next
        case None
        from bw have "?b \<noteq> CHR 0x0A"
          by (auto simp: isBareword_def isQuote1_def isQuote2_def split: if_splits)
        from parseBareword_moves [OF p [unfolded None] lt bw(1) this]
        have sp: "s sc1 = s sc" "pos sc < pos sc1"
          by simp_all
        have "\<exists>y. Next_loop sc1 (args @ [arg]) = Some y"
          using lt sp less.prems by (intro less.hyps) simp_all
        moreover have "Next_loop sc args = Next_loop sc1 (args @ [arg])"
          using lt bw p None by (subst Next_loop.simps) simp
        ultimately show ?thesis
          by simp
      qed
    next
      case bq
      obtain sc1 arg e where p: "parseBackQuote sc = (sc1, arg, e)"
        by (cases "parseBackQuote sc") auto
      show ?thesis
      proof (cases e)
        case (Some a)
        with lt bq p show ?thesis
          by (subst Next_loop.simps) simp
      next
        case None
        from parseBackQuote_progress [OF p] have sp: "s sc1 = s sc" "pos sc < pos sc1"
          by simp_all
        have "\<exists>y. Next_loop sc1 (args @ [arg]) = Some y"
          using lt sp less.prems by (intro less.hyps) simp_all
        moreover have "Next_loop sc args = Next_loop sc1 (args @ [arg])"
          using lt bq p None by (subst Next_loop.simps) simp
        ultimately show ?thesis
          by simp
      qed
    next
      case lb
      with lt show ?thesis
        by (subst Next_loop.simps) (simp split: prod.splits)
    next
      case nl
      show ?thesis
      proof (cases "0 < length args")
        case True
        with lt nl show ?thesis
          by (subst Next_loop.simps) simp
      next
        case False
        with lt nl have "Next_loop sc args = Next_loop (advance sc) args"
          by (subst Next_loop.simps) simp
        with adv show ?thesis
          by simp
      qed
    next
      case no
      with cl show ?thesis
        by (auto simp: isBareword_def isSpace_def isNewLine_def split: if_splits)
    qed
  qed
qed

section \<open>Barewords and bodies\<close>

text \<open>
  Claim C2, as stated, fails: an opening brace or a back quote inside a bareword does
  not end the run. \<open>a{b} c\<close> is the two arguments \<open>a{b}\<close> and \<open>c\<close>, with no body.
\<close>

theorem brace_inside_bareword:
  "returned (Next (NewScanner ''a{b} c'')) = Some ([''a{b}'', ''c''], [], None)
   \<and> returned (Next (NewScanner (''a'' @ [CHR 0x60] @ ''b''))) = Some ([[CHR ''a'', CHR 0x60, CHR ''b'']], [], None)"
  by code_simp

text \<open>
  Claim C2, amended. A bareword run is a maximal run of bytes that are no space, tab,
  newline, quote or backslash: started at the cursor, it is consumed whole, up to the
  space, tab or newline that follows it or to the end of the input, and it is the
  argument. An opening brace or a back quote inside the run is one of its bytes. An
  opening brace ends the collection of arguments where \<open>Next\<close>'s loop meets it, at the
  place where a token would start: then the body is parsed and returned with the
  arguments collected so far.
\<close>

theorem bareword_run_ends_at_blank_only:
  assumes "drop (pos sc) (s sc) = w @ rest"
    and "list_all (\<lambda>b. \<not> isSpace b \<and> \<not> isQuote1 b \<and> \<not> isQuote2 b
                        \<and> b \<noteq> CHR 0x0A \<and> b \<noteq> CHR 0x5C) w"
    and "rest = [] \<or> isSpace (hd rest) \<or> hd rest = CHR 0x0A"
  shows "parseBareword sc
       = (sc\<lparr>column := column sc + int (length w), pos := pos sc + length w\<rparr>, w, None)
     \<and> (pos sc' < length (s sc') \<and> isLeftBrace (s sc' ! pos sc')
        \<longrightarrow> Next_loop sc' args
            = (case parseBrace sc' of
                 (sc'', body, e) \<Rightarrow> Some (sc'', args, body, map_option ScanErr e)))"
proof (intro conjI impI)
  have "slice (s sc) (pos sc) (pos sc + length w) = w"
    using assms(1) by (simp add: slice_def)
  with parseBareword_loop_run [OF assms, of "pos sc" "[]"]
  show "parseBareword sc
       = (sc\<lparr>column := column sc + int (length w), pos := pos sc + length w\<rparr>, w, None)"
    by (simp add: parseBareword_def)
next
  assume "pos sc' < length (s sc') \<and> isLeftBrace (s sc' ! pos sc')"
  then show "Next_loop sc' args
            = (case parseBrace sc' of
                 (sc'', body, e) \<Rightarrow> Some (sc'', args, body, map_option ScanErr e))"
    by (subst Next_loop.simps)
       (simp add: isSpace_def isBareword_def isQuote1_def isQuote2_def
          isBackQuote_def isLeftBrace_def)
qed

theorem bareword_run_ends_at_blank_only_witness:
  "parseBareword (NewScanner ''a{b} c'')
     = (\<lparr>s = ''a{b} c'', pos = 4, line = 1, column = 5, baseOffset = 0\<rparr>, ''a{b}'', None)
   \<and> Next_loop \<lparr>s = ''x {y}'', pos = 2, line = 1, column = 3, baseOffset = 0\<rparr> [''x'']
     = Some (\<lparr>s = ''x {y}'', pos = 5, line = 1, column = 6, baseOffset = 0\<rparr>, [''x''], ''y'', None)"
proof -
  have pbr: "parseBrace \<lparr>s = ''x {y}'', pos = 2, line = 1, column = 3, baseOffset = 0\<rparr>
      = (\<lparr>s = ''x {y}'', pos = 5, line = 1, column = 6, baseOffset = 0\<rparr>, ''y'', None)"
    by code_simp
  from bareword_run_ends_at_blank_only
    [of "NewScanner ''a{b} c''" "''a{b}''" "'' c''"
       "\<lparr>s = ''x {y}'', pos = 2, line = 1, column = 3, baseOffset = 0\<rparr>" "[''x'']"]
  show ?thesis
    by (simp add: NewScanner_def isSpace_def isQuote1_def isQuote2_def isLeftBrace_def pbr)
qed

text \<open>
  Claim C4, as stated, fails: the body is a string, and an explicit \<open>{}\<close> returns the
  same arguments, body and error as no body at all; \<open>Format\<close> with the empty body
  appends no block.
\<close>

theorem empty_body_not_distinguished:
  "returned (Next (NewScanner ''cmd {}'')) = returned (Next (NewScanner ''cmd''))
   \<and> Format [''cmd''] [] = ''cmd''"
  by code_simp

text \<open>
  Claim C4, amended. An absent body and an empty body are the same at the interface:
  where the loop of \<open>Next\<close> meets \<open>{}\<close> it returns the collected arguments with the
  body \<open>""\<close>, which is what it returns when the input ends after the arguments; and
  \<open>FormatIndent\<close> with the body \<open>""\<close> returns the arguments joined by single
  spaces, with no block after them.
\<close>

theorem empty_body_is_no_body:
  "(pos sc + 1 < length (s sc) \<and> s sc ! pos sc = CHR ''{'' \<and> s sc ! (pos sc + 1) = CHR ''}''
      \<longrightarrow> returned (Next_loop sc args) = Some (args, [], None))
   \<and> (length (s sc') \<le> pos sc' \<and> args \<noteq> []
      \<longrightarrow> returned (Next_loop sc' args) = Some (args, [], None))
   \<and> FormatIndent args [] indent
       = Join (map (\<lambda>arg. if isBarewordString arg then arg else quoteArg arg) args) '' ''"
proof (intro conjI impI)
  assume a: "pos sc + 1 < length (s sc) \<and> s sc ! pos sc = CHR ''{'' \<and> s sc ! (pos sc + 1) = CHR ''}''"
  then have "parseBrace_loop (advance sc) (pos (advance sc)) [] 1 = (advance (advance sc), [], None)"
    by (subst parseBrace_loop.simps) simp
  then have "parseBrace sc = (advance (advance sc), [], None)"
    by (simp add: parseBrace_def Let_def)
  with a show "returned (Next_loop sc args) = Some (args, [], None)"
    by (subst Next_loop.simps)
       (simp add: returned_def isSpace_def isBareword_def isQuote1_def isQuote2_def
          isBackQuote_def isLeftBrace_def)
next
  assume "length (s sc') \<le> pos sc' \<and> args \<noteq> []"
  then show "returned (Next_loop sc' args) = Some (args, [], None)"
    by (subst Next_loop.simps) (simp add: returned_def)
next
  show "FormatIndent args [] indent
       = Join (map (\<lambda>arg. if isBarewordString arg then arg else quoteArg arg) args) '' ''"
    by (simp add: FormatIndent_def)
qed

theorem empty_body_is_no_body_witness:
  "returned (Next_loop \<lparr>s = ''cmd {}'', pos = 4, line = 1, column = 5, baseOffset = 0\<rparr> [''cmd''])
     = Some ([''cmd''], [], None)
   \<and> returned (Next_loop \<lparr>s = ''cmd'', pos = 3, line = 1, column = 4, baseOffset = 0\<rparr> [''cmd''])
     = Some ([''cmd''], [], None)
   \<and> FormatIndent [''cmd''] [] ''  '' = ''cmd''"
  using empty_body_is_no_body
    [of "\<lparr>s = ''cmd {}'', pos = 4, line = 1, column = 5, baseOffset = 0\<rparr>"
        "[''cmd'']"
        "\<lparr>s = ''cmd'', pos = 3, line = 1, column = 4, baseOffset = 0\<rparr>" "''  ''"]
  by (simp add: isBarewordString_def isBareword_def isSpace_def isQuote1_def isQuote2_def
        isLeftBrace_def isBackQuote_def)

section \<open>Dedent\<close>

text \<open>
  Claim C6. Dedent is idempotent: \<open>dedent (dedent str) = dedent str\<close> for every string.
  Where \<open>dedent\<close> changes its input, it has removed the longest common prefix of the
  leading white space of the lines that are not blank; the blank lines are the same
  after it, and the common prefix of what is left is empty.
\<close>

theorem dedent_idempotent: "dedent (dedent str) = dedent str"
proof (cases "dedent str = str")
  case True
  then show ?thesis by simp
next
  case False
  define lines where "lines = Split str"
  define ne where "ne = filter (\<lambda>ln. \<not> TrimSpace_empty ln) lines"
  define lw where "lw = map leadingWS ne"
  define cp where "cp = foldl newCommon (hd lw) (tl lw)"
  define n where "n = length cp"
  define strip where "strip = (\<lambda>ln. if TrimSpace_empty ln then ln
      else if length ln \<ge> n \<and> take n ln = cp then drop n ln else ln)"
  define r where "r = Join (map strip lines) [CHR 0x0A]"
  have unfolded: "dedent str =
      (if str = [] then str else if length lines \<le> 1 then str
       else if length ne = 0 then str else if cp = [] then str else r)"
    unfolding dedent_def Let_def lines_def ne_def lw_def cp_def n_def strip_def r_def
    by (rule refl)
  with False have ne: "ne \<noteq> []" and cp: "cp \<noteq> []" and res: "dedent str = r"
    by (auto split: if_splits)
  have lw: "lw \<noteq> []"
    using ne by (simp add: lw_def)
  have cp_prefix: "prefix cp w" if "w \<in> set lw" for w
  proof (cases "w = hd lw")
    case True
    then show ?thesis
      unfolding cp_def by (simp add: foldl_newCommon_prefix)
  next
    case False
    with that lw have "w \<in> set (tl lw)"
      by (cases lw) auto
    then show ?thesis
      unfolding cp_def by (rule foldl_newCommon_prefix_all)
  qed
  have ws_prefix: "prefix (leadingWS ln) ln" for ln
    unfolding leadingWS_def by (metis prefixI takeWhile_dropWhile_id)
  have cp_ws: "n \<le> length (leadingWS ln)" and cp_ln: "take n ln = cp" and len_ln: "n \<le> length ln"
    if "ln \<in> set ne" for ln
  proof -
    from that have p: "prefix cp (leadingWS ln)"
      by (simp add: cp_prefix lw_def)
    then show "n \<le> length (leadingWS ln)"
      unfolding n_def by (rule prefix_length_le)
    from p ws_prefix [of ln] have q: "prefix cp ln"
      by (rule prefix_order.order_trans)
    then show "take n ln = cp"
      unfolding n_def by (auto simp: prefix_def)
    from q show "n \<le> length ln"
      unfolding n_def by (rule prefix_length_le)
  qed
  have strip_ne: "strip ln = drop n ln" if "ln \<in> set ne" for ln
    using that cp_ln [OF that] len_ln [OF that] by (simp add: strip_def ne_def)
  have cp_blank: "\<forall>c\<in>set cp. c = CHR '' '' \<or> c = CHR 0x09"
  proof -
    from ne have "hd ne \<in> set ne"
      by simp
    then have "prefix cp (leadingWS (hd ne))"
      by (simp add: cp_prefix lw_def)
    then have "set cp \<subseteq> set (leadingWS (hd ne))"
      by (rule set_mono_prefix)
    then show ?thesis
      unfolding leadingWS_def by (auto dest: set_takeWhileD)
  qed
  have strip_blank: "TrimSpace_empty (strip ln) = TrimSpace_empty ln" if "ln \<in> set lines" for ln
  proof (cases "TrimSpace_empty ln")
    case True
    then show ?thesis by (simp add: strip_def)
  next
    case False
    with that have mem: "ln \<in> set ne"
      by (simp add: ne_def)
    have "ln = cp @ drop n ln"
      using cp_ln [OF mem] by (metis append_take_drop_id)
    then have "TrimSpace_empty ln = TrimSpace_empty (drop n ln)"
      using TrimSpace_empty_blanks [OF cp_blank, of "drop n ln"] by simp
    then show ?thesis
      by (simp add: strip_ne [OF mem])
  qed
  have no_newline: "CHR 0x0A \<notin> set (strip ln)" if "ln \<in> set lines" for ln
  proof -
    from that have "CHR 0x0A \<notin> set ln"
      unfolding lines_def by (rule Split_lines_no_newline)
    moreover have "set (strip ln) \<subseteq> set ln"
      by (auto simp: strip_def dest: in_set_dropD)
    ultimately show ?thesis
      by blast
  qed
  have split_r: "Split r = map strip lines"
    unfolding r_def by (rule Split_Join) (auto simp: lines_def no_newline [unfolded lines_def])
  have "filter (\<lambda>ln. \<not> TrimSpace_empty ln) (map strip lines)
      = map strip (filter (\<lambda>ln. \<not> TrimSpace_empty (strip ln)) lines)"
    by (simp add: filter_map comp_def)
  also have "\<dots> = map strip ne"
    unfolding ne_def using strip_blank by (metis (mono_tags, lifting) filter_cong)
  also have "\<dots> = map (drop n) ne"
    using strip_ne by simp
  finally have ne': "filter (\<lambda>ln. \<not> TrimSpace_empty ln) (Split r) = map (drop n) ne"
    by (simp add: split_r)
  have lw': "map leadingWS (map (drop n) ne) = map (drop n) lw"
    unfolding lw_def leadingWS_def
    using cp_ws by (simp add: takeWhile_drop leadingWS_def)
  have "foldl newCommon (hd (map (drop n) lw)) (tl (map (drop n) lw))
      = foldl newCommon (drop n (hd lw)) (map (drop n) (tl lw))"
    using lw by (simp add: hd_map map_tl)
  also have "\<dots> = drop n cp"
    unfolding cp_def by (rule foldl_newCommon_drop) (simp add: n_def cp_def)
  also have "\<dots> = []"
    by (simp add: n_def)
  finally have "foldl newCommon
       (hd (map leadingWS (filter (\<lambda>ln. \<not> TrimSpace_empty ln) (Split r))))
       (tl (map leadingWS (filter (\<lambda>ln. \<not> TrimSpace_empty ln) (Split r)))) = []"
    by (simp only: ne' lw')
  then have "dedent r = r"
    by (simp add: dedent_def Let_def)
  with res show ?thesis
    by simp
qed

section \<open>Formatting and parsing back\<close>

text \<open>
  Claim C1, as stated, fails: the brace parser reads the body it is given, it does not
  copy it. A body whose lines are indented comes back without the indentation
  (\<open>dedent\<close>), and a body with a closing brace of its own ends the block there.
\<close>

theorem round_trip_changes_body:
  "returned (Next (NewScanner (Format [''c''] ''  x''))) = Some ([''c''], ''\<newline>x\<newline>'', None)
   \<and> returned (Next (NewScanner (Format [''c''] ''  x'')))
       \<noteq> Some ([''c''], ''\<newline>  x\<newline>'', None)
   \<and> returned (Next (NewScanner (Format [''c''] ''}''))) = Some ([''c''], ''\<newline>'', None)
   \<and> returned (Next (NewScanner (Format [''c''] ''}'')))
       \<noteq> Some ([''c''], ''\<newline>}\<newline>'', None)"
  by code_simp

text \<open>
  Claim C1, amended. Let every argument of \<open>A\<close> be fit for a bareword or made of
  printable ASCII bytes, newlines, carriage returns and tabs, and let the braces of \<open>B\<close>
  be balanced, with no backslash of \<open>B\<close> before a brace, a backslash or a byte from
  0x80 on. Then parsing
  \<open>Format A B\<close> with a fresh scanner yields the arguments \<open>A\<close>; when \<open>B\<close> is not
  empty, the body is \<open>dedent\<close> of \<open>"\n" + B + "\n"\<close>, which is \<open>"\n" + B + "\n"\<close> itself
  unless the lines of \<open>B\<close> that are not blank share leading white space; when \<open>B\<close> is
  empty the body is empty, and when \<open>A\<close> is empty too the text is empty and \<open>Next\<close>
  reports the end of the input.
\<close>

theorem format_parse_round_trip:
  assumes "list_all (\<lambda>a. isBarewordString a \<or> list_all plain_byte a) A"
    and "brace_safe 0 B"
  shows "returned (Next (NewScanner (Format A B)))
     = Some (A, (if B = [] then [] else dedent (CHR 0x0A # B @ [CHR 0x0A])),
             (if A = [] \<and> B = [] then Some EOF else None))"
proof -
  let ?args = "Join (map (\<lambda>arg. if isBarewordString arg then arg else quoteArg arg) A) '' ''"
  let ?after = "if B = [] then [] else '' {'' @ CHR 0x0A # B @ [CHR 0x0A] @ ''}''"
  let ?sc = "NewScanner (Format A B)"
  have shape: "Format A B = ?args @ ?after"
    by (simp add: Format_def FormatIndent_def)
  have tail: "returned (Next_loop sc (acc :: string list))
      = Some (acc, (if B = [] then [] else dedent (CHR 0x0A # B @ [CHR 0x0A])),
              (if acc = [] \<and> B = [] then Some EOF else None))"
    if "drop (pos sc) (s sc) = ?after" for sc acc
  proof (cases "B = []")
    case True
    with that have "length (s sc) \<le> pos sc"
      by simp
    with True show ?thesis
      by (simp add: Next_loop_at_end)
  next
    case False
    with that assms(2) show ?thesis
      by (simp add: Next_loop_at_body)
  qed
  have dr: "drop (pos ?sc) (s ?sc) = ?args @ ?after"
    by (simp add: shape NewScanner_def)
  show ?thesis
  proof (cases "A = []")
    case True
    with dr have "drop (pos ?sc) (s ?sc) = ?after"
      by simp
    from tail [OF this, of "[]"] True show ?thesis
      by (simp add: Next_def)
  next
    case False
    have "?after = [] \<or> hd ?after = CHR '' ''"
      by simp
    from Next_loop_args [OF False assms(1) dr this, of "[]"]
    obtain sc' where "Next_loop ?sc [] = Next_loop sc' A" and "drop (pos sc') (s sc') = ?after"
      by auto
    with tail [of sc' A] False show ?thesis
      by (simp add: Next_def)
  qed
qed

theorem format_parse_round_trip_witness:
  "list_all (\<lambda>a. isBarewordString a \<or> list_all plain_byte a)
     [''cmd'', ''arg with spaces'', ''a{b}'']
   \<and> brace_safe 0 ''x { y }''
   \<and> returned (Next (NewScanner (Format [''cmd'', ''arg with spaces'', ''a{b}''] ''x { y }'')))
       = Some ([''cmd'', ''arg with spaces'', ''a{b}''], ''\<newline>x { y }\<newline>'', None)"
proof -
  have args: "list_all (\<lambda>a. isBarewordString a \<or> list_all plain_byte a)
     [''cmd'', ''arg with spaces'', ''a{b}'']"
    by code_simp
  have body: "brace_safe 0 ''x { y }''"
    by code_simp
  have "dedent (CHR 0x0A # ''x { y }'' @ [CHR 0x0A]) = ''\<newline>x { y }\<newline>''"
    by code_simp
  with format_parse_round_trip [OF args body] args body show ?thesis
    by simp
qed

text \<open>
  The arguments left out above: a control byte other than newline, carriage return and
  tab is written \<open>\xHH\<close> by the formatter, and the scanner, which knows no such
  escape, reads it back as \<open>x\<close> and two digits.
\<close>

lemma hex_escape_not_decoded:
  "Format [[CHR ''{'', CHR 0x01]] [] = [CHR 0x22, CHR 0x5C, CHR ''{'', CHR 0x5C] @ ''x01'' @ [CHR 0x22]
   \<and> returned (Next (NewScanner (Format [[CHR ''{'', CHR 0x01]] []))) = Some ([''{x01''], [], None)"
  by code_simp

text \<open>
  The bodies left out above: after a backslash the brace parser writes a byte from 0x80
  on as the two bytes of the code point of that number, so such a body comes back
  changed.
\<close>

lemma escaped_high_byte_reencoded:
  "string_of_byte (CHR 0xC3) = [CHR 0xC3, CHR 0x83]
   \<and> returned (Next (NewScanner (Format [''c''] [CHR 0x5C, CHR 0xC3, CHR 0xA9])))
       = Some ([''c''], [CHR 0x0A, CHR 0x5C, CHR 0xC3, CHR 0x83, CHR 0xA9, CHR 0x0A], None)"
  by code_simp

end
